theory Spec2Isabelle
  imports Complex_Main "HOL-Library.Multiset"
begin

section \<open>The transportation solver of OR.py\<close>

text \<open>
  The theory embeds the class \<open>TransportationSolver\<close> of \<open>src/OR.py\<close>: the constructor with
  \<open>_balance_problem\<close>, the three solve methods \<open>solve_nwc\<close>, \<open>solve_least_cost\<close> and
  \<open>solve_vam\<close>, the helper \<open>_find_min_cost\<close> and the cost evaluator \<open>_print_cost_equation\<close>.

  Conventions of the embedding.
  \<^item> Supplies, demands and allocated quantities are Python integers: \<open>int\<close>.
  \<^item> Unit costs are declared \<open>List[List[float]]\<close>. They are modelled as exact rationals;
    rounding of floating-point arithmetic, infinities and NaN are outside the model. The
    conversion \<open>int(c)\<close> of the source truncates toward zero and is the function \<open>py_int\<close>.
  \<^item> Row and column indices come from \<open>range\<close> and are natural numbers. The sentinel index
    \<open>-1\<close> together with the sentinel cost \<open>float("inf")\<close> of the minimum searches is the value
    \<open>None\<close>; the sentinel penalty \<open>-1\<close> of \<open>solve_vam\<close> is the rational number \<open>-1\<close>, as in
    the source.
  \<^item> The tables a solve method prints (\<open>_print_step_table\<close> after every allocation) are the
    list \<open>steps\<close> of the working state: one record per allocation with the cell, the quantity
    and the allocation matrix and remaining vectors as printed. The formatting of tables is
    not modelled.
  \<^item> A \<open>while\<close> loop is a recursive function into \<open>option\<close>: \<open>None\<close> stands for a loop that
    does not return. That a solve method returns is therefore a theorem, not a convention.
  \<^item> List reads \<open>xs ! i\<close> agree with Python only in range. The working vectors and the
    allocation matrix are created by the solve methods with the lengths \<open>self.m\<close> and
    \<open>self.n\<close>; the cost matrix is read in range when it has \<open>m\<close> rows of length \<open>n\<close>, which
    the theorems about solves assume (\<open>valid_input\<close>).
\<close>

subsection \<open>Data\<close>

type_synonym CostMatrix = "rat list list"
type_synonym Vector = "int list"

record solver =
  cost_matrix :: CostMatrix
  self_supply :: Vector
  self_demand :: Vector
  self_m :: nat
  self_n :: nat
  total_supply :: int
  total_demand :: int
  dummy_type :: "string option"

text \<open>One printed step: \<open>Allocate x units to S(i+1) -> D(j+1)\<close> followed by the step table.\<close>

record step =
  src :: nat
  dst :: nat
  qty :: int
  alloc_after :: "int list list"
  s_after :: Vector
  d_after :: Vector

text \<open>The local variables \<open>alloc\<close>, \<open>s\<close>, \<open>d\<close> of a solve method and what it has printed.\<close>

record work =
  alloc :: "int list list"
  s_left :: Vector
  d_left :: Vector
  steps :: "step list"

subsection \<open>Construction and balancing\<close>

definition balance_problem :: "solver \<Rightarrow> solver" where
  "balance_problem slf =
     (if total_supply slf > total_demand slf then
        (let diff = total_supply slf - total_demand slf in
         slf\<lparr>self_demand := self_demand slf @ [diff],
             cost_matrix := map (\<lambda>row. row @ [0]) (cost_matrix slf),
             dummy_type := Some ''demand'',
             self_n := self_n slf + 1\<rparr>)
      else if total_supply slf < total_demand slf then
        (let diff = total_demand slf - total_supply slf in
         slf\<lparr>self_supply := self_supply slf @ [diff],
             cost_matrix := cost_matrix slf @ [replicate (self_n slf) 0],
             dummy_type := Some ''supply'',
             self_m := self_m slf + 1\<rparr>)
      else slf)"

definition TransportationSolver :: "CostMatrix \<Rightarrow> Vector \<Rightarrow> Vector \<Rightarrow> solver" where
  "TransportationSolver c sply dmnd =
     balance_problem
       \<lparr>cost_matrix = c, self_supply = sply, self_demand = dmnd,
        self_m = length sply, self_n = length dmnd,
        total_supply = sum_list sply, total_demand = sum_list dmnd,
        dummy_type = None\<rparr>"

subsection \<open>The allocation step shared by the three methods\<close>

text \<open>
  Every method allocates with the same four statements
  \<open>x = min(s[i], d[j]); alloc[i][j] = x; s[i] -= x; d[j] -= x\<close>
  and then prints the step. The cell is assigned, not incremented.
\<close>

definition allocate :: "nat \<Rightarrow> nat \<Rightarrow> work \<Rightarrow> work" where
  "allocate i j w =
     (let x = min (s_left w ! i) (d_left w ! j);
          a' = (alloc w)[i := (alloc w ! i)[j := x]];
          s' = (s_left w)[i := s_left w ! i - x];
          d' = (d_left w)[j := d_left w ! j - x]
      in \<lparr>alloc = a', s_left = s', d_left = d',
          steps = steps w @
            [\<lparr>src = i, dst = j, qty = x, alloc_after = a', s_after = s', d_after = d'\<rparr>]\<rparr>)"

definition start_work :: "solver \<Rightarrow> work" where
  "start_work slf =
     \<lparr>alloc = replicate (self_m slf) (replicate (self_n slf) 0),
      s_left = self_supply slf, d_left = self_demand slf, steps = []\<rparr>"

subsection \<open>North-West Corner\<close>

text \<open>The \<open>if\<close>/\<open>elif\<close> chain that moves the cursor, reading the updated \<open>s\<close> and \<open>d\<close>.\<close>

definition nwc_advance :: "solver \<Rightarrow> nat \<Rightarrow> nat \<Rightarrow> Vector \<Rightarrow> Vector \<Rightarrow> nat \<times> nat" where
  "nwc_advance slf i j sv dv =
     (if sv ! i = 0 \<and> dv ! j = 0 then
        (if j + 1 < self_n slf then (i, j + 1) else (i + 1, j))
      else if sv ! i = 0 then (i + 1, j)
      else if dv ! j = 0 then (i, j + 1)
      else (i, j))"

partial_function (option) nwc_loop ::
  "solver \<Rightarrow> nat \<Rightarrow> nat \<Rightarrow> work \<Rightarrow> (nat \<times> nat \<times> work) option" where
  "nwc_loop slf i j w =
     (if i < self_m slf \<and> j < self_n slf then
        (let w' = allocate i j w in
         case nwc_advance slf i j (s_left w') (d_left w') of (i', j') \<Rightarrow> nwc_loop slf i' j' w')
      else Some (i, j, w))"

declare nwc_loop.simps [code]

definition solve_nwc :: "solver \<Rightarrow> work option" where
  "solve_nwc slf = map_option (\<lambda>(i, j, w). w) (nwc_loop slf 0 0 (start_work slf))"

subsection \<open>Least Cost\<close>

text \<open>\<open>c < min_cost\<close>, where \<open>None\<close> is the initial \<open>(-1, -1, float("inf"))\<close>.\<close>

fun below_min :: "rat \<Rightarrow> (nat \<times> nat \<times> rat) option \<Rightarrow> bool" where
  "below_min c None = True"
| "below_min c (Some (mi, mj, mc)) = (c < mc)"

definition find_min_cost ::
  "solver \<Rightarrow> Vector \<Rightarrow> Vector \<Rightarrow> int \<Rightarrow> (nat \<times> nat \<times> rat) option" where
  "find_min_cost slf sv dv exclude_col =
     fold (\<lambda>i best.
            if sv ! i = 0 then best
            else fold (\<lambda>j best.
                        if dv ! j = 0 \<or> int j = exclude_col then best
                        else (let c = cost_matrix slf ! i ! j in
                              if below_min c best then Some (i, j, c) else best))
                      [0..<self_n slf] best)
          [0..<self_m slf] None"

definition dummy_col :: "solver \<Rightarrow> int" where
  "dummy_col slf = (if dummy_type slf = Some ''demand'' then int (self_n slf) - 1 else - 1)"

definition real_demand_left :: "solver \<Rightarrow> Vector \<Rightarrow> bool" where
  "real_demand_left slf dv =
     list_ex (\<lambda>j. dv ! j > 0)
       [0..<self_n slf - (if dummy_col slf \<ge> 0 then 1 else 0)]"

partial_function (option) lcm_loop :: "solver \<Rightarrow> work \<Rightarrow> work option" where
  "lcm_loop slf w =
     (if real_demand_left slf (d_left w) then
        (case find_min_cost slf (s_left w) (d_left w) (dummy_col slf) of
           None \<Rightarrow> Some w
         | Some (i, j, c) \<Rightarrow> lcm_loop slf (allocate i j w))
      else Some w)"

declare lcm_loop.simps [code]

text \<open>The body of the \<open>for\<close> loop that drains leftover supply into the dummy column.\<close>

definition lcm_dummy_step :: "solver \<Rightarrow> nat \<Rightarrow> work \<Rightarrow> work" where
  "lcm_dummy_step slf i w =
     (if s_left w ! i > 0 \<and> d_left w ! nat (dummy_col slf) > 0
      then allocate i (nat (dummy_col slf)) w else w)"

definition lcm_dummy_pass :: "solver \<Rightarrow> work \<Rightarrow> work" where
  "lcm_dummy_pass slf w =
     (if dummy_col slf \<ge> 0 then fold (lcm_dummy_step slf) [0..<self_m slf] w else w)"

definition solve_least_cost :: "solver \<Rightarrow> work option" where
  "solve_least_cost slf = map_option (lcm_dummy_pass slf) (lcm_loop slf (start_work slf))"

subsection \<open>Vogel's approximation\<close>

definition penalty_of :: "rat list \<Rightarrow> rat" where
  "penalty_of costs =
     (if length costs \<ge> 2 then sort costs ! 1 - sort costs ! 0
      else if length costs = 1 then 0
      else - 1)"

definition row_pen :: "solver \<Rightarrow> bool list \<Rightarrow> bool list \<Rightarrow> work \<Rightarrow> rat list" where
  "row_pen slf active_rows active_cols w =
     map (\<lambda>i. if \<not> active_rows ! i \<or> s_left w ! i = 0 then - 1
              else penalty_of
                     (map (\<lambda>j. cost_matrix slf ! i ! j)
                        (filter (\<lambda>j. active_cols ! j \<and> d_left w ! j > 0) [0..<self_n slf])))
         [0..<self_m slf]"

definition col_pen :: "solver \<Rightarrow> bool list \<Rightarrow> bool list \<Rightarrow> work \<Rightarrow> rat list" where
  "col_pen slf active_rows active_cols w =
     map (\<lambda>j. if \<not> active_cols ! j \<or> d_left w ! j = 0 then - 1
              else penalty_of
                     (map (\<lambda>i. cost_matrix slf ! i ! j)
                        (filter (\<lambda>i. active_rows ! i \<and> s_left w ! i > 0) [0..<self_m slf])))
         [0..<self_n slf]"

text \<open>Step 3: the scan for the maximum penalty, rows first, then columns.\<close>

definition max_penalty ::
  "solver \<Rightarrow> rat list \<Rightarrow> rat list \<Rightarrow> rat \<times> bool \<times> nat option" where
  "max_penalty slf rp cp =
     fold (\<lambda>j (max_pen, is_row, idx).
             if cp ! j > max_pen then (cp ! j, False, Some j) else (max_pen, is_row, idx))
          [0..<self_n slf]
          (fold (\<lambda>i (max_pen, is_row, idx).
                   if rp ! i > max_pen then (rp ! i, True, Some i) else (max_pen, is_row, idx))
                [0..<self_m slf]
                (- 1, True, None))"

text \<open>Step 4: the cheapest cell of the selected row or column.\<close>

definition min_in_row ::
  "solver \<Rightarrow> bool list \<Rightarrow> work \<Rightarrow> nat \<Rightarrow> (nat \<times> nat \<times> rat) option" where
  "min_in_row slf active_cols w i =
     fold (\<lambda>j best.
             if active_cols ! j \<and> d_left w ! j > 0 \<and> below_min (cost_matrix slf ! i ! j) best
             then Some (i, j, cost_matrix slf ! i ! j) else best)
          [0..<self_n slf] None"

definition min_in_col ::
  "solver \<Rightarrow> bool list \<Rightarrow> work \<Rightarrow> nat \<Rightarrow> (nat \<times> nat \<times> rat) option" where
  "min_in_col slf active_rows w j =
     fold (\<lambda>i best.
             if active_rows ! i \<and> s_left w ! i > 0 \<and> below_min (cost_matrix slf ! i ! j) best
             then Some (i, j, cost_matrix slf ! i ! j) else best)
          [0..<self_m slf] None"

text \<open>Steps 1 to 4 of one iteration: the cell to fill, or \<open>None\<close> for either \<open>break\<close>.\<close>

definition vam_select ::
  "solver \<Rightarrow> bool list \<Rightarrow> bool list \<Rightarrow> work \<Rightarrow> (nat \<times> nat \<times> rat) option" where
  "vam_select slf active_rows active_cols w =
     (case max_penalty slf (row_pen slf active_rows active_cols w)
                           (col_pen slf active_rows active_cols w) of
        (max_pen, is_row, None) \<Rightarrow> None
      | (max_pen, is_row, Some idx) \<Rightarrow>
          (if is_row then min_in_row slf active_cols w idx
           else min_in_col slf active_rows w idx))"

definition vam_continue :: "solver \<Rightarrow> bool list \<Rightarrow> bool list \<Rightarrow> work \<Rightarrow> bool" where
  "vam_continue slf active_rows active_cols w =
     (list_ex (\<lambda>i. s_left w ! i > 0 \<and> active_rows ! i) [0..<self_m slf] \<and>
      list_ex (\<lambda>j. d_left w ! j > 0 \<and> active_cols ! j) [0..<self_n slf])"

partial_function (option) vam_loop ::
  "solver \<Rightarrow> bool list \<Rightarrow> bool list \<Rightarrow> work \<Rightarrow> (bool list \<times> bool list \<times> work) option" where
  "vam_loop slf active_rows active_cols w =
     (if vam_continue slf active_rows active_cols w then
        (case vam_select slf active_rows active_cols w of
           None \<Rightarrow> Some (active_rows, active_cols, w)
         | Some (min_i, min_j, c) \<Rightarrow>
             (let w' = allocate min_i min_j w;
                  active_rows' = (if s_left w' ! min_i = 0
                                  then active_rows[min_i := False] else active_rows);
                  active_cols' = (if d_left w' ! min_j = 0
                                  then active_cols[min_j := False] else active_cols)
              in vam_loop slf active_rows' active_cols' w'))
      else Some (active_rows, active_cols, w))"

declare vam_loop.simps [code]

definition solve_vam :: "solver \<Rightarrow> work option" where
  "solve_vam slf =
     map_option (\<lambda>(ar, ac, w). w)
       (vam_loop slf (replicate (self_m slf) True) (replicate (self_n slf) True)
          (start_work slf))"

subsection \<open>The cost evaluator\<close>

text \<open>Python's \<open>int(c)\<close> on a number: truncation toward zero.\<close>

definition py_int :: "rat \<Rightarrow> int" where
  "py_int c = (if 0 \<le> c then \<lfloor>c\<rfloor> else \<lceil>c\<rceil>)"

text \<open>
  \<open>_print_cost_equation\<close> returns \<open>total\<close>. The source adds \<open>c * q\<close> with \<open>c = int(cost)\<close> to
  the float \<open>0.0\<close>; every summand is a whole number, so the total is modelled as \<open>int\<close>.
\<close>

definition print_cost_equation :: "solver \<Rightarrow> int list list \<Rightarrow> int" where
  "print_cost_equation slf al =
     fold (\<lambda>i total.
            fold (\<lambda>j total.
                   (let q = al ! i ! j;
                        is_dummy = (dummy_type slf = Some ''demand'' \<and> int j = int (self_n slf) - 1)
                    in if q > 0 \<and> \<not> is_dummy
                       then total + py_int (cost_matrix slf ! i ! j) * q
                       else total))
                 [0..<self_n slf] total)
          [0..<self_m slf] 0"

subsection \<open>Inputs\<close>

text \<open>
  What the caller guarantees: a cost matrix with one row per source and one entry per
  destination, at least one source and one destination, and no negative supply or demand.
\<close>

definition valid_input :: "CostMatrix \<Rightarrow> Vector \<Rightarrow> Vector \<Rightarrow> bool" where
  "valid_input c sply dmnd =
     (1 \<le> length sply \<and> 1 \<le> length dmnd \<and>
      length c = length sply \<and> list_all (\<lambda>row. length row = length dmnd) c \<and>
      list_all (\<lambda>x. 0 \<le> x) sply \<and> list_all (\<lambda>x. 0 \<le> x) dmnd)"

text \<open>The solver that the main program of the source builds from its fixed example data.\<close>

definition example_solver :: solver where
  "example_solver =
     TransportationSolver [[12, 15, 18, 35], [35, 48, 52, 28], [8, 12, 20, 32]]
       [2500, 1800, 1200] [1500, 1200, 1000, 800]"

section \<open>Invariants and trace predicates\<close>

subsection \<open>Sums of rows and columns; the core invariant\<close>

definition row_sum :: "int list list \<Rightarrow> nat \<Rightarrow> int" where
  "row_sum a i = sum_list (a ! i)"

definition col_sum :: "int list list \<Rightarrow> nat \<Rightarrow> int" where
  "col_sum a j = sum_list (map (\<lambda>row. row ! j) a)"

definition inv_core :: "solver \<Rightarrow> work \<Rightarrow> bool" where
  "inv_core slf w \<longleftrightarrow>
     length (alloc w) = self_m slf \<and> (\<forall>i<self_m slf. length (alloc w ! i) = self_n slf) \<and>
     length (s_left w) = self_m slf \<and> length (d_left w) = self_n slf \<and>
     (\<forall>i<self_m slf. 0 \<le> s_left w ! i) \<and> (\<forall>j<self_n slf. 0 \<le> d_left w ! j) \<and>
     (\<forall>i<self_m slf. row_sum (alloc w) i + s_left w ! i = self_supply slf ! i) \<and>
     (\<forall>j<self_n slf. col_sum (alloc w) j + d_left w ! j = self_demand slf ! j) \<and>
     sum_list (s_left w) = sum_list (d_left w)"

subsection \<open>The invariant of the North-West Corner loop\<close>

definition nwc_inv :: "solver \<Rightarrow> nat \<Rightarrow> nat \<Rightarrow> work \<Rightarrow> bool" where
  "nwc_inv slf i j w \<longleftrightarrow>
     inv_core slf w \<and> i \<le> self_m slf \<and> j \<le> self_n slf \<and>
     (\<forall>i'<i. s_left w ! i' = 0) \<and> (\<forall>j'<j. d_left w ! j' = 0) \<and>
     (\<forall>i' j'. i \<le> i' \<and> i' < self_m slf \<and> j \<le> j' \<and> j' < self_n slf \<longrightarrow> alloc w ! i' ! j' = 0)"

subsection \<open>Well-formed solvers and conservation\<close>

definition wf_solver :: "solver \<Rightarrow> bool" where
  "wf_solver slf \<longleftrightarrow>
     length (self_supply slf) = self_m slf \<and> length (self_demand slf) = self_n slf \<and>
     (\<forall>i<self_m slf. 0 \<le> self_supply slf ! i) \<and> (\<forall>j<self_n slf. 0 \<le> self_demand slf ! j) \<and>
     sum_list (self_supply slf) = sum_list (self_demand slf) \<and>
     1 \<le> self_m slf \<and> 1 \<le> self_n slf \<and>
     length (cost_matrix slf) = self_m slf \<and>
     (\<forall>i<self_m slf. length (cost_matrix slf ! i) = self_n slf)"

definition conserved :: "solver \<Rightarrow> int list list \<Rightarrow> bool" where
  "conserved slf a \<longleftrightarrow>
     length a = self_m slf \<and> (\<forall>i<self_m slf. length (a ! i) = self_n slf) \<and>
     (\<forall>i<self_m slf. row_sum a i = self_supply slf ! i) \<and>
     (\<forall>j<self_n slf. col_sum a j = self_demand slf ! j) \<and>
     sum_list (map sum_list a) = sum_list (self_supply slf) \<and>
     sum_list (map sum_list a) = sum_list (self_demand slf)"

subsection \<open>The printed steps as a trace\<close>

definition snapshots :: "solver \<Rightarrow> step list \<Rightarrow> (int list list \<times> Vector \<times> Vector) list" where
  "snapshots slf stps =
     (alloc (start_work slf), self_supply slf, self_demand slf) #
     map (\<lambda>r. (alloc_after r, s_after r, d_after r)) stps"

definition step_ok :: "solver \<Rightarrow> int list list \<times> Vector \<times> Vector \<Rightarrow> step \<Rightarrow> bool" where
  "step_ok slf b r \<longleftrightarrow>
     (case b of (a, sv, dv) \<Rightarrow>
        src r < self_m slf \<and> dst r < self_n slf \<and>
        length a = self_m slf \<and> (\<forall>i<self_m slf. length (a ! i) = self_n slf) \<and>
        length sv = self_m slf \<and> length dv = self_n slf \<and>
        (\<forall>i<self_m slf. 0 \<le> sv ! i) \<and> (\<forall>j<self_n slf. 0 \<le> dv ! j) \<and>
        a ! src r ! dst r = 0 \<and>
        qty r = min (sv ! src r) (dv ! dst r) \<and>
        alloc_after r = a[src r := (a ! src r)[dst r := qty r]] \<and>
        s_after r = sv[src r := sv ! src r - qty r] \<and>
        d_after r = dv[dst r := dv ! dst r - qty r])"

definition trace_inv :: "solver \<Rightarrow> work \<Rightarrow> bool" where
  "trace_inv slf w \<longleftrightarrow>
     last (snapshots slf (steps w)) = (alloc w, s_left w, d_left w) \<and>
     (\<forall>k<length (steps w). step_ok slf (snapshots slf (steps w) ! k) (steps w ! k))"

subsection \<open>The path of the North-West Corner cursor\<close>

definition cursor_path :: "step list \<Rightarrow> nat \<times> nat \<Rightarrow> (nat \<times> nat) list" where
  "cursor_path stps fin = map (\<lambda>r. (src r, dst r)) stps @ [fin]"

definition cursor_inv :: "solver \<Rightarrow> nat \<Rightarrow> nat \<Rightarrow> work \<Rightarrow> bool" where
  "cursor_inv slf i j w \<longleftrightarrow>
     cursor_path (steps w) (i, j) ! 0 = (0, 0) \<and>
     (\<forall>k<length (steps w).
        cursor_path (steps w) (i, j) ! Suc k =
        nwc_advance slf (src (steps w ! k)) (dst (steps w ! k))
          (s_after (steps w ! k)) (d_after (steps w ! k))) \<and>
     length (steps w) = i + j \<and> (i < self_m slf \<or> j < self_n slf)"

subsection \<open>First-minimum scans\<close>

definition scan_step ::
  "(nat \<Rightarrow> nat \<Rightarrow> bool) \<Rightarrow> (nat \<Rightarrow> nat \<Rightarrow> rat) \<Rightarrow> nat \<times> nat \<Rightarrow>
   (nat \<times> nat \<times> rat) option \<Rightarrow> (nat \<times> nat \<times> rat) option" where
  "scan_step E cst p best =
     (if E (fst p) (snd p) \<and> below_min (cst (fst p) (snd p)) best
      then Some (fst p, snd p, cst (fst p) (snd p)) else best)"

definition first_min ::
  "(nat \<Rightarrow> nat \<Rightarrow> bool) \<Rightarrow> (nat \<Rightarrow> nat \<Rightarrow> rat) \<Rightarrow> (nat \<times> nat) list \<Rightarrow>
   (nat \<times> nat \<times> rat) option \<Rightarrow> bool" where
  "first_min E cst cells r \<longleftrightarrow>
     (case r of
        None \<Rightarrow> \<forall>p\<in>set cells. \<not> E (fst p) (snd p)
      | Some (i, j, c) \<Rightarrow>
          \<exists>pre post. cells = pre @ (i, j) # post \<and> E i j \<and> c = cst i j \<and>
            (\<forall>p\<in>set pre. E (fst p) (snd p) \<longrightarrow> c < cst (fst p) (snd p)) \<and>
            (\<forall>p\<in>set post. E (fst p) (snd p) \<longrightarrow> c \<le> cst (fst p) (snd p)))"

definition rm_less :: "nat \<times> nat \<Rightarrow> nat \<times> nat \<Rightarrow> bool" where
  "rm_less p q \<longleftrightarrow> fst p < fst q \<or> (fst p = fst q \<and> snd p < snd q)"

subsection \<open>Invariants of the cost-driven methods\<close>

definition greedy_inv :: "solver \<Rightarrow> work \<Rightarrow> bool" where
  "greedy_inv slf w \<longleftrightarrow>
     inv_core slf w \<and>
     (\<forall>i<self_m slf. \<forall>j<self_n slf. alloc w ! i ! j \<noteq> 0 \<longrightarrow> s_left w ! i = 0 \<or> d_left w ! j = 0)"

definition count_nz :: "int list \<Rightarrow> nat" where
  "count_nz xs = length (filter (\<lambda>x. x \<noteq> 0) xs)"

definition pot :: "work \<Rightarrow> nat" where
  "pot w = count_nz (s_left w) + count_nz (d_left w)"

definition trace_all ::
  "solver \<Rightarrow> (int list list \<times> Vector \<times> Vector \<Rightarrow> step \<Rightarrow> bool) \<Rightarrow> step list \<Rightarrow> bool" where
  "trace_all slf Q stps \<longleftrightarrow> (\<forall>k<length stps. Q (snapshots slf stps ! k) (stps ! k))"

subsection \<open>What a Least Cost step picks\<close>

definition lcm_pick :: "solver \<Rightarrow> int list list \<times> Vector \<times> Vector \<Rightarrow> step \<Rightarrow> bool" where
  "lcm_pick slf b r \<longleftrightarrow>
     (case b of (a, sv, dv) \<Rightarrow>
        (\<exists>b'<self_n slf. int b' \<noteq> dummy_col slf \<and> 0 < dv ! b') \<and>
        src r < self_m slf \<and> dst r < self_n slf \<and>
        0 < sv ! src r \<and> 0 < dv ! dst r \<and> int (dst r) \<noteq> dummy_col slf \<and>
        qty r = min (sv ! src r) (dv ! dst r) \<and>
        (\<forall>a'<self_m slf. \<forall>b'<self_n slf.
            0 < sv ! a' \<and> 0 < dv ! b' \<and> int b' \<noteq> dummy_col slf \<longrightarrow>
            cost_matrix slf ! src r ! dst r \<le> cost_matrix slf ! a' ! b' \<and>
            (cost_matrix slf ! a' ! b' = cost_matrix slf ! src r ! dst r \<longrightarrow>
               src r < a' \<or> (src r = a' \<and> dst r \<le> b'))))"

subsection \<open>The maximum-penalty scan\<close>

definition max_step ::
  "rat list \<Rightarrow> bool \<Rightarrow> nat \<Rightarrow> rat \<times> bool \<times> nat option \<Rightarrow> rat \<times> bool \<times> nat option" where
  "max_step pen tag k acc =
     (case acc of (max_pen, is_row, idx) \<Rightarrow>
        if pen ! k > max_pen then (pen ! k, tag, Some k) else (max_pen, is_row, idx))"

subsection \<open>The invariant of the Vogel loop\<close>

definition vam_inv :: "solver \<Rightarrow> bool list \<Rightarrow> bool list \<Rightarrow> work \<Rightarrow> bool" where
  "vam_inv slf ar ac w \<longleftrightarrow>
     greedy_inv slf w \<and> length ar = self_m slf \<and> length ac = self_n slf \<and>
     (\<forall>i<self_m slf. s_left w ! i \<noteq> 0 \<longrightarrow> ar ! i) \<and>
     (\<forall>j<self_n slf. d_left w ! j \<noteq> 0 \<longrightarrow> ac ! j)"

subsection \<open>What every run records\<close>

definition basic_log :: "solver \<Rightarrow> work \<Rightarrow> bool" where
  "basic_log slf w \<longleftrightarrow>
     trace_inv slf w \<and> trace_all slf (\<lambda>b r. 0 < qty r) (steps w) \<and>
     length (steps w) + max 1 (pot w) \<le> max 1 (self_m slf + self_n slf)"

definition dummy_tail :: "solver \<Rightarrow> step list \<Rightarrow> nat \<Rightarrow> bool" where
  "dummy_tail slf extra k \<longleftrightarrow>
     (\<forall>r\<in>set extra. int (dst r) = dummy_col slf \<and> src r < k) \<and> sorted_wrt (<) (map src extra)"

subsection \<open>Properties of traces stated by the claims\<close>

definition nonneg_nonincreasing :: "solver \<Rightarrow> step list \<Rightarrow> bool" where
  "nonneg_nonincreasing slf stps \<longleftrightarrow>
     (\<forall>k<length stps.
        case snapshots slf stps ! k of (a, sv, dv) \<Rightarrow>
          0 \<le> qty (stps ! k) \<and>
          length (s_after (stps ! k)) = length sv \<and> length (d_after (stps ! k)) = length dv \<and>
          (\<forall>i<length sv. 0 \<le> s_after (stps ! k) ! i \<and> s_after (stps ! k) ! i \<le> sv ! i) \<and>
          (\<forall>j<length dv. 0 \<le> d_after (stps ! k) ! j \<and> d_after (stps ! k) ! j \<le> dv ! j))"


definition nwc_moves :: "solver \<Rightarrow> step list \<Rightarrow> nat \<times> nat \<Rightarrow> bool" where
  "nwc_moves slf stps fin \<longleftrightarrow>
     cursor_path stps fin ! 0 = (0, 0) \<and>
     (\<forall>k<length stps.
        let r = stps ! k; i = src r; j = dst r;
            row_done = (s_after r ! i = 0); col_done = (d_after r ! j = 0);
            nxt = cursor_path stps fin ! Suc k
        in i < self_m slf \<and> j < self_n slf \<and> (row_done \<or> col_done) \<and>
           (case snapshots slf stps ! k of (a, sv, dv) \<Rightarrow>
              qty r = min (sv ! i) (dv ! j) \<and> alloc_after r = a[i := (a ! i)[j := qty r]] \<and>
              s_after r = sv[i := sv ! i - qty r] \<and> d_after r = dv[j := dv ! j - qty r]) \<and>
           (row_done \<and> col_done \<longrightarrow>
              nxt = (if j + 1 < self_n slf then (i, j + 1) else (i + 1, j))) \<and>
           (row_done \<and> \<not> col_done \<longrightarrow> nxt = (i + 1, j)) \<and>
           (\<not> row_done \<and> col_done \<longrightarrow> nxt = (i, j + 1)))"

subsection \<open>The summands of the cost evaluator\<close>

definition cost_term :: "solver \<Rightarrow> int list list \<Rightarrow> nat \<Rightarrow> nat \<Rightarrow> int" where
  "cost_term slf al i j =
     (if al ! i ! j > 0 \<and> \<not> (dummy_type slf = Some ''demand'' \<and> int j = int (self_n slf) - 1)
      then py_int (cost_matrix slf ! i ! j) * al ! i ! j else 0)"

section \<open>Lemmas\<close>

subsection \<open>Lists, sums and the allocation step\<close>

lemma sum_list_update_int:
  fixes xs :: "int list"
  shows "k < length xs \<Longrightarrow> sum_list (xs[k := x]) = sum_list xs + x - xs ! k"
proof (induction xs arbitrary: k)
  case Nil
  then show ?case by simp
next
  case (Cons a xs)
  then show ?case by (cases k) simp_all
qed

lemma row_sum_set_cell:
  assumes "i < length a" "j < length (a ! i)"
  shows "row_sum (a[i := (a ! i)[j := x]]) i' =
         (if i' = i then row_sum a i + x - a ! i ! j else row_sum a i')"
  using assms by (simp add: row_sum_def sum_list_update_int)

lemma col_sum_set_cell:
  assumes "i < length a" "j < length (a ! i)"
  shows "col_sum (a[i := (a ! i)[j := x]]) j' =
         (if j' = j then col_sum a j + x - a ! i ! j else col_sum a j')"
proof -
  have "col_sum (a[i := (a ! i)[j := x]]) j' =
        sum_list ((map (\<lambda>row. row ! j') a)[i := ((a ! i)[j := x]) ! j'])"
    by (simp add: col_sum_def map_update)
  also have "\<dots> = col_sum a j' + ((a ! i)[j := x]) ! j' - a ! i ! j'"
    using assms by (simp add: sum_list_update_int col_sum_def)
  finally show ?thesis using assms by (simp add: nth_list_update)
qed

lemma alloc_allocate:
  "alloc (allocate i j w) = (alloc w)[i := (alloc w ! i)[j := min (s_left w ! i) (d_left w ! j)]]"
  by (simp add: allocate_def Let_def)

lemma s_left_allocate:
  "s_left (allocate i j w) = (s_left w)[i := s_left w ! i - min (s_left w ! i) (d_left w ! j)]"
  by (simp add: allocate_def Let_def)

lemma d_left_allocate:
  "d_left (allocate i j w) = (d_left w)[j := d_left w ! j - min (s_left w ! i) (d_left w ! j)]"
  by (simp add: allocate_def Let_def)

lemma steps_allocate:
  "steps (allocate i j w) = steps w @
     [\<lparr>src = i, dst = j, qty = min (s_left w ! i) (d_left w ! j),
       alloc_after = alloc (allocate i j w), s_after = s_left (allocate i j w),
       d_after = d_left (allocate i j w)\<rparr>]"
  by (simp add: allocate_def Let_def)

lemma inv_core_allocate:
  assumes "inv_core slf w" "i < self_m slf" "j < self_n slf" "alloc w ! i ! j = 0"
  shows "inv_core slf (allocate i j w)"
proof -
  let ?x = "min (s_left w ! i) (d_left w ! j)"
  have sh: "length (alloc w) = self_m slf" "\<forall>i<self_m slf. length (alloc w ! i) = self_n slf"
    "length (s_left w) = self_m slf" "length (d_left w) = self_n slf"
    using assms(1) by (simp_all add: inv_core_def)
  have nn: "\<forall>i<self_m slf. 0 \<le> s_left w ! i" "\<forall>j<self_n slf. 0 \<le> d_left w ! j"
    using assms(1) by (simp_all add: inv_core_def)
  have rs: "\<forall>i<self_m slf. row_sum (alloc w) i + s_left w ! i = self_supply slf ! i"
    and cs: "\<forall>j<self_n slf. col_sum (alloc w) j + d_left w ! j = self_demand slf ! j"
    and bal: "sum_list (s_left w) = sum_list (d_left w)"
    using assms(1) by (simp_all add: inv_core_def)
  have ij: "i < length (alloc w)" "j < length (alloc w ! i)" "i < length (s_left w)" "j < length (d_left w)"
    using sh assms(2,3) by simp_all
  have 1: "length (alloc (allocate i j w)) = self_m slf"
    by (simp add: alloc_allocate sh)
  have 2: "\<forall>i'<self_m slf. length (alloc (allocate i j w) ! i') = self_n slf"
    using sh ij by (simp add: alloc_allocate nth_list_update)
  have 3: "length (s_left (allocate i j w)) = self_m slf" "length (d_left (allocate i j w)) = self_n slf"
    by (simp_all add: s_left_allocate d_left_allocate sh)
  have 4: "\<forall>i'<self_m slf. 0 \<le> s_left (allocate i j w) ! i'"
    using nn ij sh by (simp add: s_left_allocate nth_list_update)
  have 5: "\<forall>j'<self_n slf. 0 \<le> d_left (allocate i j w) ! j'"
    using nn ij sh by (simp add: d_left_allocate nth_list_update)
  have 6: "\<forall>i'<self_m slf. row_sum (alloc (allocate i j w)) i' + s_left (allocate i j w) ! i' = self_supply slf ! i'"
    using rs ij sh assms(4) by (simp add: alloc_allocate s_left_allocate row_sum_set_cell nth_list_update)
  have 7: "\<forall>j'<self_n slf. col_sum (alloc (allocate i j w)) j' + d_left (allocate i j w) ! j' = self_demand slf ! j'"
    using cs ij sh assms(4) by (simp add: alloc_allocate d_left_allocate col_sum_set_cell nth_list_update)
  have 8: "sum_list (s_left (allocate i j w)) = sum_list (d_left (allocate i j w))"
    using bal ij by (simp add: s_left_allocate d_left_allocate sum_list_update_int)
  show ?thesis unfolding inv_core_def using 1 2 3 4 5 6 7 8 by blast
qed

subsection \<open>The North-West Corner loop\<close>

lemma inv_core_lengths:
  assumes "inv_core slf w"
  shows "length (alloc w) = self_m slf" "\<And>i. i < self_m slf \<Longrightarrow> length (alloc w ! i) = self_n slf"
    "length (s_left w) = self_m slf" "length (d_left w) = self_n slf"
  using assms by (simp_all add: inv_core_def)

lemma allocate_exhausts:
  assumes "i < length (s_left w)" "j < length (d_left w)"
  shows "s_left (allocate i j w) ! i = 0 \<or> d_left (allocate i j w) ! j = 0"
  using assms by (auto simp add: s_left_allocate d_left_allocate min_def)

lemma nwc_advance_cases:
  assumes "sv ! i = 0 \<or> dv ! j = 0"
  shows "nwc_advance slf i j sv dv = (i + 1, j) \<and> sv ! i = 0
       \<or> nwc_advance slf i j sv dv = (i, j + 1) \<and> dv ! j = 0 \<and> (j + 1 < self_n slf \<or> sv ! i \<noteq> 0)"
  using assms by (auto simp add: nwc_advance_def)

lemma nwc_inv_step:
  assumes inv: "nwc_inv slf i j w" and i: "i < self_m slf" and j: "j < self_n slf"
    and adv: "nwc_advance slf i j (s_left (allocate i j w)) (d_left (allocate i j w)) = (i', j')"
  shows "nwc_inv slf i' j' (allocate i j w) \<and> (i' = i + 1 \<and> j' = j \<or> i' = i \<and> j' = j + 1)"
proof -
  let ?w = "allocate i j w"
  have core: "inv_core slf w" using inv by (simp add: nwc_inv_def)
  note len = inv_core_lengths[OF core]
  have z: "alloc w ! i ! j = 0" using inv i j by (simp add: nwc_inv_def)
  have core': "inv_core slf ?w" by (rule inv_core_allocate[OF core i j z])
  have rows: "\<forall>i'<i. s_left ?w ! i' = 0"
    using inv i len by (simp add: nwc_inv_def s_left_allocate nth_list_update)
  have cols: "\<forall>j'<j. d_left ?w ! j' = 0"
    using inv j len by (simp add: nwc_inv_def d_left_allocate nth_list_update)
  have region: "\<And>a b. i \<le> a \<Longrightarrow> a < self_m slf \<Longrightarrow> j \<le> b \<Longrightarrow> b < self_n slf \<Longrightarrow> (a, b) \<noteq> (i, j)
        \<Longrightarrow> alloc ?w ! a ! b = 0"
  proof -
    fix a b assume h: "i \<le> a" "a < self_m slf" "j \<le> b" "b < self_n slf" "(a, b) \<noteq> (i, j)"
    have "alloc w ! a ! b = 0" using inv h by (simp add: nwc_inv_def)
    then show "alloc ?w ! a ! b = 0"
      using h len i j by (auto simp add: alloc_allocate nth_list_update)
  qed
  have ex: "s_left ?w ! i = 0 \<or> d_left ?w ! j = 0"
    using allocate_exhausts[of i w j] i j len by simp
  from nwc_advance_cases[OF ex, of slf] adv
  consider (down) "i' = i + 1" "j' = j" "s_left ?w ! i = 0"
    | (right) "i' = i" "j' = j + 1" "d_left ?w ! j = 0"
    by auto
  then show ?thesis
  proof cases
    case down
    have "\<forall>a<i'. s_left ?w ! a = 0" using rows down by (auto simp add: less_Suc_eq)
    moreover have "\<forall>a b. i' \<le> a \<and> a < self_m slf \<and> j' \<le> b \<and> b < self_n slf \<longrightarrow> alloc ?w ! a ! b = 0"
      using region down by auto
    ultimately show ?thesis
      unfolding nwc_inv_def using core' cols down i j by auto
  next
    case right
    have "\<forall>b<j'. d_left ?w ! b = 0" using cols right by (auto simp add: less_Suc_eq)
    moreover have "\<forall>a b. i' \<le> a \<and> a < self_m slf \<and> j' \<le> b \<and> b < self_n slf \<longrightarrow> alloc ?w ! a ! b = 0"
      using region right by auto
    ultimately show ?thesis
      unfolding nwc_inv_def using core' rows right i j by auto
  qed
qed

lemma nwc_loop_rule:
  assumes "nwc_inv slf i j w" and "I i j w"
    and step: "\<And>i j w i' j'. nwc_inv slf i j w \<Longrightarrow> I i j w \<Longrightarrow> i < self_m slf \<Longrightarrow> j < self_n slf
            \<Longrightarrow> nwc_advance slf i j (s_left (allocate i j w)) (d_left (allocate i j w)) = (i', j') \<Longrightarrow> I i' j' (allocate i j w)"
  shows "\<exists>i' j' w'. nwc_loop slf i j w = Some (i', j', w') \<and> nwc_inv slf i' j' w' \<and> I i' j' w'
            \<and> \<not> (i' < self_m slf \<and> j' < self_n slf)"
  using assms(1,2)
proof (induction "(self_m slf - i) + (self_n slf - j)" arbitrary: i j w rule: less_induct)
  case less
  show ?case
  proof (cases "i < self_m slf \<and> j < self_n slf")
    case False
    then show ?thesis using less.prems by (subst nwc_loop.simps) auto
  next
    case True
    obtain i' j' where adv: "nwc_advance slf i j (s_left (allocate i j w)) (d_left (allocate i j w)) = (i', j')"
      by (cases "nwc_advance slf i j (s_left (allocate i j w)) (d_left (allocate i j w))") auto
    from nwc_inv_step[OF less.prems(1) _ _ adv] True
    have inv': "nwc_inv slf i' j' (allocate i j w)"
      and mv: "i' = i + 1 \<and> j' = j \<or> i' = i \<and> j' = j + 1" by auto
    have I': "I i' j' (allocate i j w)"
      using step[OF less.prems(1,2) _ _ adv] True by auto
    have "(self_m slf - i') + (self_n slf - j') < (self_m slf - i) + (self_n slf - j)"
      using mv True by auto
    from less.hyps[OF this inv' I']
    show ?thesis using True adv by (subst nwc_loop.simps) (simp add: Let_def)
  qed
qed

subsection \<open>Construction gives a well-formed solver; exhaustion gives conservation\<close>

lemma valid_input_wf:
  assumes "valid_input c sply dmnd"
  shows "wf_solver (TransportationSolver c sply dmnd)"
proof -
  have l: "1 \<le> length sply" "1 \<le> length dmnd" "length c = length sply"
    and rows: "\<forall>i<length c. length (c ! i) = length dmnd"
    and ns: "\<forall>i<length sply. 0 \<le> sply ! i" and nd: "\<forall>j<length dmnd. 0 \<le> dmnd ! j"
    using assms by (simp_all add: valid_input_def list_all_length)
  consider (gt) "sum_list sply > sum_list dmnd" | (lt) "sum_list sply < sum_list dmnd"
    | (eq) "sum_list sply = sum_list dmnd" by linarith
  then show ?thesis
  proof cases
    case gt
    then show ?thesis
      using l rows ns nd
      by (auto simp add: wf_solver_def TransportationSolver_def balance_problem_def Let_def
          nth_append less_Suc_eq)
  next
    case lt
    then show ?thesis
      using l rows ns nd
      by (auto simp add: wf_solver_def TransportationSolver_def balance_problem_def Let_def
          nth_append less_Suc_eq)
  next
    case eq
    then show ?thesis
      using l rows ns nd
      by (auto simp add: wf_solver_def TransportationSolver_def balance_problem_def Let_def)
  qed
qed

lemma col_sum_replicate_zero: "j < n \<Longrightarrow> col_sum (replicate m (replicate n 0)) j = 0"
  by (simp add: col_sum_def sum_list_replicate)

lemma inv_core_start:
  assumes "wf_solver slf"
  shows "inv_core slf (start_work slf)"
  using assms
  by (simp add: wf_solver_def inv_core_def start_work_def row_sum_def col_sum_replicate_zero
      sum_list_replicate)

lemma nwc_inv_start:
  assumes "wf_solver slf"
  shows "nwc_inv slf 0 0 (start_work slf)"
  using inv_core_start[OF assms] by (simp add: nwc_inv_def) (simp add: start_work_def)

lemma nonneg_sum_zero_nth:
  fixes xs :: "int list"
  assumes "\<forall>i<length xs. 0 \<le> xs ! i" "sum_list xs = 0" "i < length xs"
  shows "xs ! i = 0"
proof -
  have "\<And>x. x \<in> set xs \<Longrightarrow> 0 \<le> x" using assms(1) by (auto simp add: in_set_conv_nth)
  from sum_list_nonneg_eq_0_iff[OF this] assms(2) have "\<forall>x\<in>set xs. x = 0" by simp
  then show ?thesis using assms(3) by simp
qed

lemma all_zero_sum: 
  fixes xs :: "int list"
  assumes "\<forall>i<length xs. xs ! i = 0" shows "sum_list xs = 0"
proof -
  have "\<forall>x\<in>set xs. x = 0" using assms by (auto simp add: in_set_conv_nth)
  then show ?thesis by (induction xs) auto
qed

lemma inv_core_exhausted:
  assumes core: "inv_core slf w"
    and ex: "(\<forall>i<self_m slf. s_left w ! i = 0) \<or> (\<forall>j<self_n slf. d_left w ! j = 0)"
  shows "(\<forall>i<self_m slf. s_left w ! i = 0) \<and> (\<forall>j<self_n slf. d_left w ! j = 0)"
proof -
  note len = inv_core_lengths[OF core]
  have nn: "\<forall>i<length (s_left w). 0 \<le> s_left w ! i" "\<forall>j<length (d_left w). 0 \<le> d_left w ! j"
    and bal: "sum_list (s_left w) = sum_list (d_left w)"
    using core by (simp_all add: inv_core_def)
  from ex have "sum_list (s_left w) = 0 \<or> sum_list (d_left w) = 0"
    using all_zero_sum[of "s_left w"] all_zero_sum[of "d_left w"] len by auto
  then have "sum_list (s_left w) = 0" "sum_list (d_left w) = 0" using bal by auto
  then show ?thesis
    using nonneg_sum_zero_nth[OF nn(1)] nonneg_sum_zero_nth[OF nn(2)] len by auto
qed

lemma conserved_if_exhausted:
  assumes wf: "wf_solver slf" and core: "inv_core slf w"
    and ex: "(\<forall>i<self_m slf. s_left w ! i = 0) \<or> (\<forall>j<self_n slf. d_left w ! j = 0)"
  shows "conserved slf (alloc w)"
proof -
  note len = inv_core_lengths[OF core]
  from inv_core_exhausted[OF core ex]
  have z: "\<forall>i<self_m slf. s_left w ! i = 0" "\<forall>j<self_n slf. d_left w ! j = 0" by auto
  have rs: "\<forall>i<self_m slf. row_sum (alloc w) i = self_supply slf ! i"
    and cs: "\<forall>j<self_n slf. col_sum (alloc w) j = self_demand slf ! j"
    using core z by (simp_all add: inv_core_def)
  have "map sum_list (alloc w) = self_supply slf"
    using rs len wf by (auto simp add: list_eq_iff_nth_eq row_sum_def wf_solver_def)
  then have tot: "sum_list (map sum_list (alloc w)) = sum_list (self_supply slf)" by simp
  moreover have "sum_list (self_supply slf) = sum_list (self_demand slf)"
    using wf by (simp add: wf_solver_def)
  ultimately show ?thesis unfolding conserved_def using len rs cs by auto
qed

lemma nwc_conserved:
  assumes wf: "wf_solver slf"
  shows "\<exists>w. solve_nwc slf = Some w \<and> conserved slf (alloc w)"
proof -
  from nwc_loop_rule[where I = "\<lambda>i j w. True", OF nwc_inv_start[OF wf]]
  obtain i j w where r: "nwc_loop slf 0 0 (start_work slf) = Some (i, j, w)"
    and inv: "nwc_inv slf i j w" and stop: "\<not> (i < self_m slf \<and> j < self_n slf)"
    by auto
  have core: "inv_core slf w" using inv by (simp add: nwc_inv_def)
  have "i = self_m slf \<or> j = self_n slf" using inv stop by (auto simp add: nwc_inv_def)
  then have "(\<forall>i<self_m slf. s_left w ! i = 0) \<or> (\<forall>j<self_n slf. d_left w ! j = 0)"
    using inv by (auto simp add: nwc_inv_def)
  from conserved_if_exhausted[OF wf core this] r show ?thesis
    by (simp add: solve_nwc_def)
qed

subsection \<open>The trace of printed steps\<close>

lemma trace_inv_start: "trace_inv slf (start_work slf)"
  by (simp add: trace_inv_def snapshots_def start_work_def)

lemma snapshots_snoc:
  "snapshots slf (stps @ [r]) = snapshots slf stps @ [(alloc_after r, s_after r, d_after r)]"
  by (simp add: snapshots_def)

lemma length_snapshots: "length (snapshots slf stps) = Suc (length stps)"
  by (simp add: snapshots_def)

lemma snapshots_last_nth: "snapshots slf stps ! length stps = last (snapshots slf stps)"
  using last_conv_nth[of "snapshots slf stps"] by (simp add: length_snapshots snapshots_def)

lemma trace_inv_allocate:
  assumes tr: "trace_inv slf w" and core: "inv_core slf w"
    and i: "i < self_m slf" and j: "j < self_n slf" and z: "alloc w ! i ! j = 0"
  shows "trace_inv slf (allocate i j w)"
proof -
  let ?w = "allocate i j w"
  let ?r = "\<lparr>src = i, dst = j, qty = min (s_left w ! i) (d_left w ! j),
       alloc_after = alloc ?w, s_after = s_left ?w, d_after = d_left ?w\<rparr>"
  have st: "steps ?w = steps w @ [?r]" by (rule steps_allocate)
  have cur: "last (snapshots slf (steps w)) = (alloc w, s_left w, d_left w)"
    and old: "\<forall>k<length (steps w). step_ok slf (snapshots slf (steps w) ! k) (steps w ! k)"
    using tr by (simp_all add: trace_inv_def)
  have 1: "last (snapshots slf (steps ?w)) = (alloc ?w, s_left ?w, d_left ?w)"
    by (simp add: st snapshots_snoc)
  have new: "step_ok slf (alloc w, s_left w, d_left w) ?r"
    using core i j z
    by (simp add: step_ok_def inv_core_def alloc_allocate s_left_allocate d_left_allocate)
  have 2: "step_ok slf (snapshots slf (steps ?w) ! k) (steps ?w ! k)" if k: "k < length (steps ?w)" for k
  proof (cases "k < length (steps w)")
    case True
    then show ?thesis using old by (simp add: st snapshots_snoc nth_append length_snapshots)
  next
    case False
    then have "k = length (steps w)" using k by (simp add: st)
    then show ?thesis
      using new cur snapshots_last_nth[of slf "steps w"]
      by (simp add: st snapshots_snoc nth_append length_snapshots)
  qed
  show ?thesis unfolding trace_inv_def using 1 2 by blast
qed

lemma step_ok_facts:
  assumes "step_ok slf (a, sv, dv) r"
  shows "0 \<le> qty r"
    and "length (s_after r) = length sv" and "length (d_after r) = length dv"
    and "\<forall>i<length sv. 0 \<le> s_after r ! i \<and> s_after r ! i \<le> sv ! i"
    and "\<forall>j<length dv. 0 \<le> d_after r ! j \<and> d_after r ! j \<le> dv ! j"
    and "length (alloc_after r) = length a"
    and "\<forall>i<length a. length (alloc_after r ! i) = length (a ! i)"
    and "\<forall>i<length a. \<forall>j<length (a ! i). a ! i ! j \<le> alloc_after r ! i ! j"
proof -
  note h = assms[unfolded step_ok_def, simplified]
  show q: "0 \<le> qty r" using h by auto
  show "length (s_after r) = length sv" "length (d_after r) = length dv" using h by auto
  show "\<forall>i<length sv. 0 \<le> s_after r ! i \<and> s_after r ! i \<le> sv ! i"
    using h q by (auto simp add: nth_list_update)
  show "\<forall>j<length dv. 0 \<le> d_after r ! j \<and> d_after r ! j \<le> dv ! j"
    using h q by (auto simp add: nth_list_update)
  show "length (alloc_after r) = length a" using h by auto
  show "\<forall>i<length a. length (alloc_after r ! i) = length (a ! i)"
    using h by (auto simp add: nth_list_update)
  show "\<forall>i<length a. \<forall>j<length (a ! i). a ! i ! j \<le> alloc_after r ! i ! j"
    using h q by (auto simp add: nth_list_update)
qed

subsection \<open>The cursor path\<close>

lemma cursor_inv_start: "1 \<le> self_m slf \<Longrightarrow> cursor_inv slf 0 0 (start_work slf)"
  by (simp add: cursor_inv_def cursor_path_def start_work_def)

lemma cursor_inv_step:
  assumes inv: "nwc_inv slf i j w" and ci: "cursor_inv slf i j w"
    and i: "i < self_m slf" and j: "j < self_n slf"
    and adv: "nwc_advance slf i j (s_left (allocate i j w)) (d_left (allocate i j w)) = (i', j')"
  shows "cursor_inv slf i' j' (allocate i j w)"
proof -
  let ?w = "allocate i j w"
  let ?r = "\<lparr>src = i, dst = j, qty = min (s_left w ! i) (d_left w ! j),
       alloc_after = alloc ?w, s_after = s_left ?w, d_after = d_left ?w\<rparr>"
  have st: "steps ?w = steps w @ [?r]" by (rule steps_allocate)
  have mv: "i' = i + 1 \<and> j' = j \<or> i' = i \<and> j' = j + 1"
    using nwc_inv_step[OF inv i j adv] by simp
  have path: "cursor_path (steps ?w) (i', j') = cursor_path (steps w) (i, j) @ [(i', j')]"
    by (simp add: st cursor_path_def)
  have lp: "length (cursor_path (steps w) (i, j)) = Suc (length (steps w))"
    by (simp add: cursor_path_def)
  have h0: "cursor_path (steps w) (i, j) ! 0 = (0, 0)"
    and hk: "\<forall>k<length (steps w).
        cursor_path (steps w) (i, j) ! Suc k =
        nwc_advance slf (src (steps w ! k)) (dst (steps w ! k))
          (s_after (steps w ! k)) (d_after (steps w ! k))"
    and hl: "length (steps w) = i + j"
    using ci by (simp_all add: cursor_inv_def)
  have 1: "cursor_path (steps ?w) (i', j') ! 0 = (0, 0)"
    using h0 by (simp add: path nth_append lp)
  have 2: "cursor_path (steps ?w) (i', j') ! Suc k =
        nwc_advance slf (src (steps ?w ! k)) (dst (steps ?w ! k))
          (s_after (steps ?w ! k)) (d_after (steps ?w ! k))" if "k < length (steps ?w)" for k
  proof (cases "k < length (steps w)")
    case True
    have "cursor_path (steps ?w) (i', j') ! Suc k = cursor_path (steps w) (i, j) ! Suc k"
      using True by (simp add: path nth_append lp)
    moreover have "steps ?w ! k = steps w ! k" using True by (simp add: st nth_append)
    ultimately show ?thesis using hk True by simp
  next
    case False
    then have k: "k = length (steps w)" using that by (simp add: st)
    have "cursor_path (steps ?w) (i', j') ! Suc k = (i', j')"
      using k by (simp add: path nth_append lp)
    moreover have "steps ?w ! k = ?r" using k by (simp add: st nth_append)
    ultimately show ?thesis using adv by simp
  qed
  have 3: "length (steps ?w) = i' + j'" using hl mv by (auto simp add: st)
  have 4: "i' < self_m slf \<or> j' < self_n slf" using mv i j by auto
  show ?thesis unfolding cursor_inv_def using 1 2 3 4 by blast
qed

lemma nwc_run:
  assumes wf: "wf_solver slf"
  shows "\<exists>i j w. nwc_loop slf 0 0 (start_work slf) = Some (i, j, w) \<and> nwc_inv slf i j w \<and>
           trace_inv slf w \<and> cursor_inv slf i j w \<and> (i = self_m slf \<or> j = self_n slf)"
proof -
  have m1: "1 \<le> self_m slf" using wf by (simp add: wf_solver_def)
  have "\<exists>i j w. nwc_loop slf 0 0 (start_work slf) = Some (i, j, w) \<and> nwc_inv slf i j w \<and>
           (trace_inv slf w \<and> cursor_inv slf i j w) \<and> \<not> (i < self_m slf \<and> j < self_n slf)"
  proof (rule nwc_loop_rule[where I = "\<lambda>i j w. trace_inv slf w \<and> cursor_inv slf i j w"])
    show "nwc_inv slf 0 0 (start_work slf)" by (rule nwc_inv_start[OF wf])
    show "trace_inv slf (start_work slf) \<and> cursor_inv slf 0 0 (start_work slf)"
      using trace_inv_start cursor_inv_start[OF m1] by simp
  next
    fix i j w i' j'
    assume inv: "nwc_inv slf i j w" and I: "trace_inv slf w \<and> cursor_inv slf i j w"
      and i: "i < self_m slf" and j: "j < self_n slf"
      and adv: "nwc_advance slf i j (s_left (allocate i j w)) (d_left (allocate i j w)) = (i', j')"
    have "trace_inv slf (allocate i j w)"
      using trace_inv_allocate[of slf w i j] I inv i j by (simp add: nwc_inv_def)
    moreover have "cursor_inv slf i' j' (allocate i j w)"
      using cursor_inv_step[OF inv _ i j adv] I by simp
    ultimately show "trace_inv slf (allocate i j w) \<and> cursor_inv slf i' j' (allocate i j w)" ..
  qed
  then obtain i j w where r: "nwc_loop slf 0 0 (start_work slf) = Some (i, j, w)"
    and inv: "nwc_inv slf i j w" and t: "trace_inv slf w" and c: "cursor_inv slf i j w"
    and stop: "\<not> (i < self_m slf \<and> j < self_n slf)" by blast
  have "i = self_m slf \<or> j = self_n slf" using inv stop by (auto simp add: nwc_inv_def)
  then show ?thesis using r inv t c by blast
qed


subsection \<open>First-minimum scans\<close>

lemma first_min_Some:
  "first_min E cst cells (Some (i, j, c)) \<longleftrightarrow>
     (\<exists>pre post. cells = pre @ (i, j) # post \<and> E i j \<and> c = cst i j \<and>
            (\<forall>p\<in>set pre. E (fst p) (snd p) \<longrightarrow> c < cst (fst p) (snd p)) \<and>
            (\<forall>p\<in>set post. E (fst p) (snd p) \<longrightarrow> c \<le> cst (fst p) (snd p)))"
  by (simp add: first_min_def)

lemma first_min_snoc:
  assumes "first_min E cst xs r"
  shows "first_min E cst (xs @ [x]) (scan_step E cst x r)"
proof (cases r)
  case None
  then have no: "\<forall>p\<in>set xs. \<not> E (fst p) (snd p)" using assms by (simp add: first_min_def)
  show ?thesis
  proof (cases "E (fst x) (snd x)")
    case True
    have r: "scan_step E cst x r = Some (fst x, snd x, cst (fst x) (snd x))"
      using True None by (simp add: scan_step_def)
    have "\<exists>pre post. xs @ [x] = pre @ (fst x, snd x) # post \<and>
            (\<forall>p\<in>set pre. E (fst p) (snd p) \<longrightarrow> cst (fst x) (snd x) < cst (fst p) (snd p)) \<and>
            (\<forall>p\<in>set post. E (fst p) (snd p) \<longrightarrow> cst (fst x) (snd x) \<le> cst (fst p) (snd p))"
      using no by (intro exI[of _ xs] exI[of _ "[]"]) simp
    then show ?thesis using True unfolding first_min_def r by simp
  next
    case False
    then show ?thesis using None no by (simp add: first_min_def scan_step_def)
  qed
next
  case (Some t)
  obtain i j c where t: "t = (i, j, c)" by (cases t) auto
  from assms Some t obtain pre post where
    d: "xs = pre @ (i, j) # post" and e: "E i j" and c: "c = cst i j"
    and lo: "\<forall>p\<in>set pre. E (fst p) (snd p) \<longrightarrow> c < cst (fst p) (snd p)"
    and hi: "\<forall>p\<in>set post. E (fst p) (snd p) \<longrightarrow> c \<le> cst (fst p) (snd p)"
    by (auto simp add: first_min_def)
  show ?thesis
  proof (cases "E (fst x) (snd x) \<and> cst (fst x) (snd x) < c")
    case True
    have all: "\<forall>p\<in>set xs. E (fst p) (snd p) \<longrightarrow> cst (fst x) (snd x) < cst (fst p) (snd p)"
    proof
      fix p assume "p \<in> set xs"
      then consider "p \<in> set pre" | "p = (i, j)" | "p \<in> set post" using d by auto
      then show "E (fst p) (snd p) \<longrightarrow> cst (fst x) (snd x) < cst (fst p) (snd p)"
        using lo hi c True by cases force+
    qed
    have r: "scan_step E cst x r = Some (fst x, snd x, cst (fst x) (snd x))"
      using True Some t by (simp add: scan_step_def)
    have "xs @ [x] = xs @ (fst x, snd x) # []" by simp
    then have "\<exists>pre post. xs @ [x] = pre @ (fst x, snd x) # post \<and>
            (\<forall>p\<in>set pre. E (fst p) (snd p) \<longrightarrow> cst (fst x) (snd x) < cst (fst p) (snd p)) \<and>
            (\<forall>p\<in>set post. E (fst p) (snd p) \<longrightarrow> cst (fst x) (snd x) \<le> cst (fst p) (snd p))"
      using all by (intro exI[of _ xs] exI[of _ "[]"]) simp
    then show ?thesis using True unfolding first_min_def r by simp
  next
    case False
    have r: "scan_step E cst x r = Some (i, j, c)"
      using False Some t by (auto simp add: scan_step_def)
    have "xs @ [x] = pre @ (i, j) # (post @ [x])" using d by simp
    moreover have "\<forall>p\<in>set (post @ [x]). E (fst p) (snd p) \<longrightarrow> c \<le> cst (fst p) (snd p)"
      using hi False by auto
    ultimately show ?thesis using e c lo unfolding r first_min_Some by blast
  qed
qed

lemma first_min_fold: "first_min E cst cells (fold (scan_step E cst) cells None)"
proof (induction cells rule: rev_induct)
  case Nil
  then show ?case by (simp add: first_min_def)
next
  case (snoc x xs)
  then show ?case using first_min_snoc[of E cst xs _ x] by simp
qed

lemma first_min_sorted:
  assumes fm: "first_min E cst cells (Some (i, j, c))" and so: "sorted_wrt rm_less cells"
  shows "(i, j) \<in> set cells \<and> E i j \<and> c = cst i j \<and>
         (\<forall>p\<in>set cells. E (fst p) (snd p) \<longrightarrow>
            c \<le> cst (fst p) (snd p) \<and> (cst (fst p) (snd p) = c \<longrightarrow> p = (i, j) \<or> rm_less (i, j) p))"
proof -
  from fm obtain pre post where
    d: "cells = pre @ (i, j) # post" and e: "E i j" and c: "c = cst i j"
    and lo: "\<forall>p\<in>set pre. E (fst p) (snd p) \<longrightarrow> c < cst (fst p) (snd p)"
    and hi: "\<forall>p\<in>set post. E (fst p) (snd p) \<longrightarrow> c \<le> cst (fst p) (snd p)"
    by (auto simp add: first_min_def)
  have after: "\<forall>p\<in>set post. rm_less (i, j) p"
    using so unfolding d by (simp add: sorted_wrt_append)
  have "E (fst p) (snd p) \<longrightarrow>
            c \<le> cst (fst p) (snd p) \<and> (cst (fst p) (snd p) = c \<longrightarrow> p = (i, j) \<or> rm_less (i, j) p)"
    if "p \<in> set cells" for p
  proof -
    from that consider "p \<in> set pre" | "p = (i, j)" | "p \<in> set post" using d by auto
    then show ?thesis using lo hi after c by cases force+
  qed
  then show ?thesis using d e c by auto
qed

lemma sorted_wrt_rm_less_product:
  assumes "sorted_wrt (<) xs" "sorted_wrt (<) ys"
  shows "sorted_wrt rm_less (List.product xs ys)"
  using assms(1)
proof (induction xs)
  case Nil
  then show ?case by simp
next
  case (Cons x xs)
  have "sorted_wrt rm_less (map (Pair x) ys)"
    using assms(2) by (simp add: sorted_wrt_map rm_less_def)
  moreover have "sorted_wrt rm_less (List.product xs ys)" using Cons by simp
  moreover have "\<forall>p\<in>set (map (Pair x) ys). \<forall>q\<in>set (List.product xs ys). rm_less p q"
    using Cons.prems by (auto simp add: rm_less_def)
  ultimately show ?case by (simp add: sorted_wrt_append)
qed

subsection \<open>The minimum searches of the source are first-minimum scans\<close>

lemma find_min_inner:
  fixes sv dv :: Vector and cm :: CostMatrix
  assumes "sv ! i \<noteq> 0"
  shows "fold (\<lambda>j best. if dv ! j = 0 \<or> int j = e then best
                  else (let c = cm ! i ! j in if below_min c best then Some (i, j, c) else best)) ns b
       = fold (scan_step (\<lambda>a b. sv ! a \<noteq> 0 \<and> dv ! b \<noteq> 0 \<and> int b \<noteq> e) (\<lambda>a b. cm ! a ! b))
           (map (Pair i) ns) b"
  using assms by (induction ns arbitrary: b) (simp_all add: scan_step_def Let_def)

lemma find_min_skip:
  fixes sv dv :: Vector and cst :: "nat \<Rightarrow> nat \<Rightarrow> rat"
  assumes "sv ! i = 0"
  shows "fold (scan_step (\<lambda>a b. sv ! a \<noteq> 0 \<and> dv ! b \<noteq> 0 \<and> int b \<noteq> e) cst) (map (Pair i) ns) b = b"
  using assms by (induction ns arbitrary: b) (simp_all add: scan_step_def)

lemma find_min_outer:
  fixes sv dv :: Vector and cm :: CostMatrix
  shows "fold (\<lambda>i best. if sv ! i = 0 then best
          else fold (\<lambda>j best. if dv ! j = 0 \<or> int j = e then best
                  else (let c = cm ! i ! j in if below_min c best then Some (i, j, c) else best)) ns best) ms b
   = fold (scan_step (\<lambda>a b. sv ! a \<noteq> 0 \<and> dv ! b \<noteq> 0 \<and> int b \<noteq> e) (\<lambda>a b. cm ! a ! b))
           (List.product ms ns) b"
proof (induction ms arbitrary: b)
  case Nil
  then show ?case by simp
next
  case (Cons i ms)
  show ?case
  proof (cases "sv ! i = 0")
    case True
    then show ?thesis using Cons by (simp add: find_min_skip[OF True] del: fold_map)
  next
    case False
    then show ?thesis using Cons by (simp add: find_min_inner[OF False] del: fold_map)
  qed
qed

lemma find_min_cost_scan:
  "find_min_cost slf sv dv e =
     fold (scan_step (\<lambda>a b. sv ! a \<noteq> 0 \<and> dv ! b \<noteq> 0 \<and> int b \<noteq> e) (\<lambda>a b. cost_matrix slf ! a ! b))
       (List.product [0..<self_m slf] [0..<self_n slf]) None"
  unfolding find_min_cost_def by (rule find_min_outer)

lemma find_min_cost_None:
  assumes "find_min_cost slf sv dv e = None"
  shows "\<forall>a<self_m slf. \<forall>b<self_n slf. \<not> (sv ! a \<noteq> 0 \<and> dv ! b \<noteq> 0 \<and> int b \<noteq> e)"
proof -
  let ?E = "\<lambda>a b. sv ! a \<noteq> 0 \<and> dv ! b \<noteq> 0 \<and> int b \<noteq> e"
  let ?cells = "List.product [0..<self_m slf] [0..<self_n slf]"
  have "first_min ?E (\<lambda>a b. cost_matrix slf ! a ! b) ?cells None"
    using first_min_fold[of ?E "\<lambda>a b. cost_matrix slf ! a ! b" ?cells] assms
    by (simp add: find_min_cost_scan)
  then have "\<forall>p\<in>set ?cells. \<not> ?E (fst p) (snd p)" by (simp add: first_min_def)
  then show ?thesis by fastforce
qed

lemma find_min_cost_Some:
  assumes "find_min_cost slf sv dv e = Some (i, j, c)"
  shows "i < self_m slf \<and> j < self_n slf \<and> sv ! i \<noteq> 0 \<and> dv ! j \<noteq> 0 \<and> int j \<noteq> e \<and>
         c = cost_matrix slf ! i ! j \<and>
         (\<forall>a<self_m slf. \<forall>b<self_n slf. sv ! a \<noteq> 0 \<and> dv ! b \<noteq> 0 \<and> int b \<noteq> e \<longrightarrow>
            c \<le> cost_matrix slf ! a ! b \<and>
            (cost_matrix slf ! a ! b = c \<longrightarrow> i < a \<or> (i = a \<and> j \<le> b)))"
proof -
  let ?E = "\<lambda>a b. sv ! a \<noteq> 0 \<and> dv ! b \<noteq> 0 \<and> int b \<noteq> e"
  let ?cst = "\<lambda>a b. cost_matrix slf ! a ! b"
  let ?cells = "List.product [0..<self_m slf] [0..<self_n slf]"
  have fm: "first_min ?E ?cst ?cells (Some (i, j, c))"
    using first_min_fold[of ?E ?cst ?cells] assms by (simp add: find_min_cost_scan)
  have so: "sorted_wrt rm_less ?cells"
    by (rule sorted_wrt_rm_less_product) simp_all
  note r = first_min_sorted[OF fm so]
  have mem: "(i, j) \<in> set ?cells" and e: "?E i j" and c: "c = ?cst i j" using r by auto
  have "c \<le> ?cst a b \<and> (?cst a b = c \<longrightarrow> i < a \<or> (i = a \<and> j \<le> b))"
    if "a < self_m slf" "b < self_n slf" "?E a b" for a b
  proof -
    have "(a, b) \<in> set ?cells" using that by simp
    with r that(3) have "c \<le> ?cst a b" and "?cst a b = c \<longrightarrow> (a, b) = (i, j) \<or> rm_less (i, j) (a, b)"
      by fastforce+
    then show ?thesis by (auto simp add: rm_less_def)
  qed
  then show ?thesis using mem e c by auto
qed

lemma min_in_row_scan:
  "min_in_row slf ac w i =
     fold (scan_step (\<lambda>a b. ac ! b \<and> 0 < d_left w ! b) (\<lambda>a b. cost_matrix slf ! a ! b))
       (map (Pair i) [0..<self_n slf]) None"
proof -
  have "(\<lambda>j best. if ac ! j \<and> d_left w ! j > 0 \<and> below_min (cost_matrix slf ! i ! j) best
             then Some (i, j, cost_matrix slf ! i ! j) else best)
        = scan_step (\<lambda>a b. ac ! b \<and> 0 < d_left w ! b) (\<lambda>a b. cost_matrix slf ! a ! b) \<circ> Pair i"
    by (intro ext) (simp add: scan_step_def)
  then show ?thesis by (simp add: min_in_row_def fold_map)
qed

lemma min_in_col_scan:
  "min_in_col slf ar w j =
     fold (scan_step (\<lambda>a b. ar ! a \<and> 0 < s_left w ! a) (\<lambda>a b. cost_matrix slf ! a ! b))
       (map (\<lambda>a. (a, j)) [0..<self_m slf]) None"
proof -
  have "(\<lambda>i best. if ar ! i \<and> s_left w ! i > 0 \<and> below_min (cost_matrix slf ! i ! j) best
             then Some (i, j, cost_matrix slf ! i ! j) else best)
        = scan_step (\<lambda>a b. ar ! a \<and> 0 < s_left w ! a) (\<lambda>a b. cost_matrix slf ! a ! b) \<circ> (\<lambda>a. (a, j))"
    by (intro ext) (simp add: scan_step_def)
  then show ?thesis by (simp add: min_in_col_def fold_map)
qed

lemma min_in_row_None:
  assumes "min_in_row slf ac w i = None"
  shows "\<forall>b<self_n slf. \<not> (ac ! b \<and> 0 < d_left w ! b)"
proof -
  let ?E = "\<lambda>a b. ac ! b \<and> 0 < d_left w ! b"
  let ?cells = "map (Pair i) [0..<self_n slf]"
  have "first_min ?E (\<lambda>a b. cost_matrix slf ! a ! b) ?cells None"
    using first_min_fold[of ?E "\<lambda>a b. cost_matrix slf ! a ! b" ?cells] assms
    by (simp add: min_in_row_scan)
  then have "\<forall>p\<in>set ?cells. \<not> ?E (fst p) (snd p)" by (simp add: first_min_def)
  then show ?thesis by fastforce
qed

lemma min_in_col_None:
  assumes "min_in_col slf ar w j = None"
  shows "\<forall>a<self_m slf. \<not> (ar ! a \<and> 0 < s_left w ! a)"
proof -
  let ?E = "\<lambda>a b. ar ! a \<and> 0 < s_left w ! a"
  let ?cells = "map (\<lambda>a. (a, j)) [0..<self_m slf]"
  have "first_min ?E (\<lambda>a b. cost_matrix slf ! a ! b) ?cells None"
    using first_min_fold[of ?E "\<lambda>a b. cost_matrix slf ! a ! b" ?cells] assms
    by (simp add: min_in_col_scan)
  then have "\<forall>p\<in>set ?cells. \<not> ?E (fst p) (snd p)" by (simp add: first_min_def)
  then show ?thesis by fastforce
qed

lemma min_in_row_Some:
  assumes "min_in_row slf ac w i = Some (a, b, c)"
  shows "a = i \<and> b < self_n slf \<and> ac ! b \<and> 0 < d_left w ! b \<and> c = cost_matrix slf ! i ! b \<and>
         (\<forall>b'<self_n slf. ac ! b' \<and> 0 < d_left w ! b' \<longrightarrow>
            c \<le> cost_matrix slf ! i ! b' \<and> (cost_matrix slf ! i ! b' = c \<longrightarrow> b \<le> b'))"
proof -
  let ?E = "\<lambda>a b. ac ! b \<and> 0 < d_left w ! b"
  let ?cst = "\<lambda>a b. cost_matrix slf ! a ! b"
  let ?cells = "map (Pair i) [0..<self_n slf]"
  have fm: "first_min ?E ?cst ?cells (Some (a, b, c))"
    using first_min_fold[of ?E ?cst ?cells] assms by (simp add: min_in_row_scan)
  have so: "sorted_wrt rm_less ?cells" by (simp add: sorted_wrt_map rm_less_def)
  note r = first_min_sorted[OF fm so]
  have mem: "(a, b) \<in> set ?cells" and e: "?E a b" and c: "c = ?cst a b" using r by auto
  have ai: "a = i" "b < self_n slf" using mem by auto
  have "c \<le> ?cst i b' \<and> (?cst i b' = c \<longrightarrow> b \<le> b')"
    if "b' < self_n slf" "?E i b'" for b'
  proof -
    have "(i, b') \<in> set ?cells" using that by simp
    with r that(2) have "c \<le> ?cst i b'" and "?cst i b' = c \<longrightarrow> (i, b') = (a, b) \<or> rm_less (a, b) (i, b')"
      by fastforce+
    then show ?thesis using ai by (auto simp add: rm_less_def)
  qed
  then show ?thesis using ai e c by auto
qed

lemma min_in_col_Some:
  assumes "min_in_col slf ar w j = Some (a, b, c)"
  shows "b = j \<and> a < self_m slf \<and> ar ! a \<and> 0 < s_left w ! a \<and> c = cost_matrix slf ! a ! j \<and>
         (\<forall>a'<self_m slf. ar ! a' \<and> 0 < s_left w ! a' \<longrightarrow>
            c \<le> cost_matrix slf ! a' ! j \<and> (cost_matrix slf ! a' ! j = c \<longrightarrow> a \<le> a'))"
proof -
  let ?E = "\<lambda>a b. ar ! a \<and> 0 < s_left w ! a"
  let ?cst = "\<lambda>a b. cost_matrix slf ! a ! b"
  let ?cells = "map (\<lambda>a. (a, j)) [0..<self_m slf]"
  have fm: "first_min ?E ?cst ?cells (Some (a, b, c))"
    using first_min_fold[of ?E ?cst ?cells] assms by (simp add: min_in_col_scan)
  have so: "sorted_wrt rm_less ?cells" by (simp add: sorted_wrt_map rm_less_def)
  note r = first_min_sorted[OF fm so]
  have mem: "(a, b) \<in> set ?cells" and e: "?E a b" and c: "c = ?cst a b" using r by auto
  have bj: "b = j" "a < self_m slf" using mem by auto
  have "c \<le> ?cst a' j \<and> (?cst a' j = c \<longrightarrow> a \<le> a')"
    if "a' < self_m slf" "?E a' j" for a'
  proof -
    have "(a', j) \<in> set ?cells" using that by simp
    with r that(2) have "c \<le> ?cst a' j" and "?cst a' j = c \<longrightarrow> (a', j) = (a, b) \<or> rm_less (a, b) (a', j)"
      by fastforce+
    then show ?thesis using bj by (auto simp add: rm_less_def)
  qed
  then show ?thesis using bj e c by auto
qed

subsection \<open>The Least Cost loop\<close>

lemma count_nz_update:
  "i < length xs \<Longrightarrow>
   count_nz (xs[i := v]) + (if xs ! i \<noteq> 0 then 1 else 0) = count_nz xs + (if v \<noteq> 0 then 1 else 0)"
proof (induction xs arbitrary: i)
  case Nil
  then show ?case by simp
next
  case (Cons a xs)
  show ?case
  proof (cases i)
    case 0
    then show ?thesis by (simp add: count_nz_def)
  next
    case (Suc k)
    then have "k < length xs" using Cons.prems by simp
    from Cons.IH[OF this] show ?thesis using Suc
      by (auto simp add: count_nz_def split: if_splits)
  qed
qed

lemma count_nz_le: "count_nz xs \<le> length xs"
  by (simp add: count_nz_def)

lemma count_nz_pos:
  assumes "i < length xs" "xs ! i \<noteq> 0"
  shows "1 \<le> count_nz xs"
proof -
  have "xs ! i \<in> set (filter (\<lambda>x. x \<noteq> 0) xs)" using assms by simp
  then have "0 < length (filter (\<lambda>x. x \<noteq> 0) xs)" by (rule length_pos_if_in_set)
  then show ?thesis unfolding count_nz_def by linarith
qed

lemma pot_allocate:
  assumes "i < length (s_left w)" "j < length (d_left w)" "s_left w ! i \<noteq> 0" "d_left w ! j \<noteq> 0"
  shows "pot (allocate i j w) < pot w" and "2 \<le> pot w" and "pot (allocate i j w) + 1 \<le> pot w"
proof -
  let ?x = "min (s_left w ! i) (d_left w ! j)"
  have s: "count_nz ((s_left w)[i := s_left w ! i - ?x]) + 1
           = count_nz (s_left w) + (if s_left w ! i - ?x \<noteq> 0 then 1 else 0)"
    using count_nz_update[OF assms(1), of "s_left w ! i - ?x"] assms(3) by simp
  have d: "count_nz ((d_left w)[j := d_left w ! j - ?x]) + 1
           = count_nz (d_left w) + (if d_left w ! j - ?x \<noteq> 0 then 1 else 0)"
    using count_nz_update[OF assms(2), of "d_left w ! j - ?x"] assms(4) by simp
  have z: "s_left w ! i - ?x = 0 \<or> d_left w ! j - ?x = 0" by (auto simp add: min_def)
  show "pot (allocate i j w) + 1 \<le> pot w"
    using s d z by (auto simp add: pot_def s_left_allocate d_left_allocate split: if_splits)
  then show "pot (allocate i j w) < pot w" by simp
  have "1 \<le> count_nz (s_left w)" using count_nz_pos[OF assms(1,3)] .
  moreover have "1 \<le> count_nz (d_left w)" using count_nz_pos[OF assms(2,4)] .
  ultimately show "2 \<le> pot w" by (simp add: pot_def)
qed

lemma greedy_inv_start: "wf_solver slf \<Longrightarrow> greedy_inv slf (start_work slf)"
  using inv_core_start[of slf] by (simp add: greedy_inv_def) (simp add: start_work_def)

lemma greedy_inv_allocate:
  assumes g: "greedy_inv slf w" and i: "i < self_m slf" and j: "j < self_n slf"
    and si: "s_left w ! i \<noteq> 0" and dj: "d_left w ! j \<noteq> 0"
  shows "greedy_inv slf (allocate i j w)" and "alloc w ! i ! j = 0"
    and "0 < s_left w ! i" and "0 < d_left w ! j"
proof -
  let ?w = "allocate i j w"
  have core: "inv_core slf w" using g by (simp add: greedy_inv_def)
  note len = inv_core_lengths[OF core]
  show z: "alloc w ! i ! j = 0" using g i j si dj by (auto simp add: greedy_inv_def)
  show "0 < s_left w ! i" "0 < d_left w ! j"
    using core i j si dj by (auto simp add: inv_core_def order_less_le)
  have core': "inv_core slf ?w" by (rule inv_core_allocate[OF core i j z])
  have ex: "s_left ?w ! i = 0 \<or> d_left ?w ! j = 0"
    using allocate_exhausts[of i w j] i j len by simp
  have "s_left ?w ! a = 0 \<or> d_left ?w ! b = 0"
    if a: "a < self_m slf" and b: "b < self_n slf" and nz: "alloc ?w ! a ! b \<noteq> 0" for a b
  proof (cases "a = i \<and> b = j")
    case True
    then show ?thesis using ex by simp
  next
    case False
    then have "alloc ?w ! a ! b = alloc w ! a ! b"
      using a b i j len by (auto simp add: alloc_allocate nth_list_update)
    then have old: "s_left w ! a = 0 \<or> d_left w ! b = 0"
      using g a b nz by (simp add: greedy_inv_def)
    show ?thesis
    proof (cases "a = i")
      case ai: True
      then have "b \<noteq> j" using False by simp
      then have "d_left ?w ! b = d_left w ! b" by (simp add: d_left_allocate)
      moreover have "d_left w ! b = 0" using old ai si by simp
      ultimately show ?thesis by simp
    next
      case ai: False
      then have sa: "s_left ?w ! a = s_left w ! a" by (simp add: s_left_allocate)
      show ?thesis
      proof (cases "b = j")
        case True
        then have "s_left w ! a = 0" using old dj by simp
        then show ?thesis using sa by simp
      next
        case False
        then have "d_left ?w ! b = d_left w ! b" by (simp add: d_left_allocate)
        then show ?thesis using old sa by auto
      qed
    qed
  qed
  then show "greedy_inv slf ?w" unfolding greedy_inv_def using core' by blast
qed

lemma trace_all_allocate:
  assumes tr: "trace_inv slf w" and old: "trace_all slf Q (steps w)"
    and new: "Q (alloc w, s_left w, d_left w)
       \<lparr>src = i, dst = j, qty = min (s_left w ! i) (d_left w ! j),
        alloc_after = alloc (allocate i j w), s_after = s_left (allocate i j w),
        d_after = d_left (allocate i j w)\<rparr>"
  shows "trace_all slf Q (steps (allocate i j w))"
proof -
  let ?w = "allocate i j w"
  let ?r = "\<lparr>src = i, dst = j, qty = min (s_left w ! i) (d_left w ! j),
       alloc_after = alloc ?w, s_after = s_left ?w, d_after = d_left ?w\<rparr>"
  have st: "steps ?w = steps w @ [?r]" by (rule steps_allocate)
  have cur: "last (snapshots slf (steps w)) = (alloc w, s_left w, d_left w)"
    using tr by (simp add: trace_inv_def)
  have "Q (snapshots slf (steps ?w) ! k) (steps ?w ! k)" if k: "k < length (steps ?w)" for k
  proof (cases "k < length (steps w)")
    case True
    then show ?thesis using old
      by (simp add: st snapshots_snoc nth_append length_snapshots trace_all_def)
  next
    case False
    then have "k = length (steps w)" using k by (simp add: st)
    then show ?thesis
      using new cur snapshots_last_nth[of slf "steps w"]
      by (simp add: st snapshots_snoc nth_append length_snapshots)
  qed
  then show ?thesis by (simp add: trace_all_def)
qed

lemma lcm_loop_rule:
  assumes "greedy_inv slf w" and "I w"
    and step: "\<And>w i j c. greedy_inv slf w \<Longrightarrow> I w \<Longrightarrow> real_demand_left slf (d_left w) \<Longrightarrow>
        find_min_cost slf (s_left w) (d_left w) (dummy_col slf) = Some (i, j, c) \<Longrightarrow> I (allocate i j w)"
  shows "\<exists>w'. lcm_loop slf w = Some w' \<and> greedy_inv slf w' \<and> I w' \<and>
           (\<not> real_demand_left slf (d_left w') \<or>
            find_min_cost slf (s_left w') (d_left w') (dummy_col slf) = None)"
  using assms(1,2)
proof (induction "pot w" arbitrary: w rule: less_induct)
  case less
  show ?case
  proof (cases "real_demand_left slf (d_left w)")
    case False
    then show ?thesis using less.prems by (subst lcm_loop.simps) auto
  next
    case True
    show ?thesis
    proof (cases "find_min_cost slf (s_left w) (d_left w) (dummy_col slf)")
      case None
      then show ?thesis using less.prems True by (subst lcm_loop.simps) auto
    next
      case (Some t)
      obtain i j c where t: "t = (i, j, c)" by (cases t) auto
      note fm = find_min_cost_Some[OF Some[unfolded t]]
      have core: "inv_core slf w" using less.prems(1) by (simp add: greedy_inv_def)
      note len = inv_core_lengths[OF core]
      have g': "greedy_inv slf (allocate i j w)"
        using greedy_inv_allocate(1)[OF less.prems(1)] fm by simp
      have I': "I (allocate i j w)"
        using step[OF less.prems True Some[unfolded t]] .
      have "pot (allocate i j w) < pot w"
        using pot_allocate(1)[of i w j] fm len by simp
      from less.hyps[OF this g' I']
      show ?thesis using True Some t by (subst lcm_loop.simps) simp
    qed
  qed
qed

subsection \<open>Least Cost: main loop and dummy pass\<close>

lemma real_demand_left_iff:
  "real_demand_left slf dv \<longleftrightarrow> (\<exists>b<self_n slf. int b \<noteq> dummy_col slf \<and> 0 < dv ! b)"
proof (cases "dummy_type slf = Some ''demand'' \<and> 1 \<le> self_n slf")
  case True
  then have dc: "dummy_col slf = int (self_n slf) - 1" by (simp add: dummy_col_def)
  have "(\<exists>b<self_n slf - 1. 0 < dv ! b) \<longleftrightarrow> (\<exists>b<self_n slf. int b \<noteq> int (self_n slf) - 1 \<and> 0 < dv ! b)"
  proof
    assume "\<exists>b<self_n slf - 1. 0 < dv ! b"
    then obtain b where "b < self_n slf - 1" "0 < dv ! b" by auto
    then have "b < self_n slf \<and> int b \<noteq> int (self_n slf) - 1 \<and> 0 < dv ! b" by auto
    then show "\<exists>b<self_n slf. int b \<noteq> int (self_n slf) - 1 \<and> 0 < dv ! b" by blast
  next
    assume "\<exists>b<self_n slf. int b \<noteq> int (self_n slf) - 1 \<and> 0 < dv ! b"
    then obtain b where "b < self_n slf" "int b \<noteq> int (self_n slf) - 1" "0 < dv ! b" by auto
    then have "b < self_n slf - 1 \<and> 0 < dv ! b" by auto
    then show "\<exists>b<self_n slf - 1. 0 < dv ! b" by blast
  qed
  then show ?thesis using True dc by (simp add: real_demand_left_def list_ex_iff Bex_def)
next
  case False
  then have dc: "dummy_col slf = - 1" by (auto simp add: dummy_col_def)
  then show ?thesis by (simp add: real_demand_left_def list_ex_iff Bex_def)
qed

lemma dummy_col_range:
  assumes "0 \<le> dummy_col slf"
  shows "nat (dummy_col slf) < self_n slf" and "int (nat (dummy_col slf)) = dummy_col slf"
  using assms by (auto simp add: dummy_col_def split: if_splits)

lemma nth_le_sum_nonneg:
  fixes xs :: "int list"
  assumes "\<forall>i<length xs. 0 \<le> xs ! i" "k < length xs"
  shows "xs ! k \<le> sum_list xs"
proof -
  have "\<And>x. x \<in> set (xs[k := 0]) \<Longrightarrow> 0 \<le> x"
    using assms by (auto simp add: in_set_conv_nth nth_list_update)
  then have "0 \<le> sum_list (xs[k := 0])" by (rule sum_list_nonneg)
  then show ?thesis using sum_list_update_int[OF assms(2), of 0] by simp
qed

lemma sum_list_single:
  fixes xs :: "int list"
  assumes "\<forall>b<length xs. b \<noteq> k \<longrightarrow> xs ! b = 0" "k < length xs"
  shows "sum_list xs = xs ! k"
proof -
  have "\<forall>i<length (xs[k := 0]). xs[k := 0] ! i = 0"
    using assms by (auto simp add: nth_list_update)
  from all_zero_sum[OF this] show ?thesis using sum_list_update_int[OF assms(2), of 0] by simp
qed

lemma lcm_main:
  assumes wf: "wf_solver slf" and I0: "I (start_work slf)"
    and step: "\<And>w i j. greedy_inv slf w \<Longrightarrow> trace_inv slf w \<Longrightarrow> I w \<Longrightarrow>
        i < self_m slf \<Longrightarrow> j < self_n slf \<Longrightarrow> 0 < s_left w ! i \<Longrightarrow> 0 < d_left w ! j \<Longrightarrow>
        I (allocate i j w)"
  shows "\<exists>w1. lcm_loop slf (start_work slf) = Some w1 \<and> greedy_inv slf w1 \<and> trace_inv slf w1 \<and>
           trace_all slf (lcm_pick slf) (steps w1) \<and> I w1 \<and> \<not> real_demand_left slf (d_left w1)"
proof -
  let ?I = "\<lambda>w. trace_inv slf w \<and> trace_all slf (lcm_pick slf) (steps w) \<and> I w"
  have "\<exists>w'. lcm_loop slf (start_work slf) = Some w' \<and> greedy_inv slf w' \<and> ?I w' \<and>
           (\<not> real_demand_left slf (d_left w') \<or>
            find_min_cost slf (s_left w') (d_left w') (dummy_col slf) = None)"
  proof (rule lcm_loop_rule[where I = ?I])
    show "greedy_inv slf (start_work slf)" by (rule greedy_inv_start[OF wf])
    show "?I (start_work slf)"
      using trace_inv_start I0 by (simp add: trace_all_def) (simp add: start_work_def)
  next
    fix w i j c
    assume g: "greedy_inv slf w" and I: "?I w" and rd: "real_demand_left slf (d_left w)"
      and fm: "find_min_cost slf (s_left w) (d_left w) (dummy_col slf) = Some (i, j, c)"
    note f = find_min_cost_Some[OF fm]
    have core: "inv_core slf w" using g by (simp add: greedy_inv_def)
    have i: "i < self_m slf" and j: "j < self_n slf" using f by auto
    note ga = greedy_inv_allocate[OF g i j]
    have z: "alloc w ! i ! j = 0" and si: "0 < s_left w ! i" and dj: "0 < d_left w ! j"
      using ga f by auto
    have t': "trace_inv slf (allocate i j w)"
      using trace_inv_allocate[OF _ core i j z] I by simp
    have pick: "lcm_pick slf (alloc w, s_left w, d_left w)
       \<lparr>src = i, dst = j, qty = min (s_left w ! i) (d_left w ! j),
        alloc_after = alloc (allocate i j w), s_after = s_left (allocate i j w),
        d_after = d_left (allocate i j w)\<rparr>"
      using f si dj rd by (simp add: lcm_pick_def real_demand_left_iff) force
    have a': "trace_all slf (lcm_pick slf) (steps (allocate i j w))"
      using trace_all_allocate[where Q = "lcm_pick slf" and slf = slf and w = w and i = i and j = j]
        pick I by simp
    have "I (allocate i j w)" using step[OF g _ _ i j si dj] I by simp
    then show "?I (allocate i j w)" using t' a' by simp
  qed
  then obtain w1 where r: "lcm_loop slf (start_work slf) = Some w1" and g: "greedy_inv slf w1"
    and I: "?I w1"
    and stop: "\<not> real_demand_left slf (d_left w1) \<or>
            find_min_cost slf (s_left w1) (d_left w1) (dummy_col slf) = None" by blast
  have core: "inv_core slf w1" using g by (simp add: greedy_inv_def)
  have "\<not> real_demand_left slf (d_left w1)"
  proof
    assume rd: "real_demand_left slf (d_left w1)"
    then obtain b where b: "b < self_n slf" "int b \<noteq> dummy_col slf" "0 < d_left w1 ! b"
      by (auto simp add: real_demand_left_iff)
    from rd stop have "find_min_cost slf (s_left w1) (d_left w1) (dummy_col slf) = None" by simp
    from find_min_cost_None[OF this] b have "\<forall>a<self_m slf. s_left w1 ! a = 0"
      by (metis less_irrefl)
    with inv_core_exhausted[OF core] have "d_left w1 ! b = 0" using b by simp
    then show False using b by simp
  qed
  then show ?thesis using r g I by blast
qed

lemma fold_upt_rule:
  assumes "J 0 w" and "\<And>k w. k < m \<Longrightarrow> J k w \<Longrightarrow> J (Suc k) (f k w)"
  shows "J m (fold f [0..<m] w)"
proof -
  have "k \<le> m \<Longrightarrow> J k (fold f [0..<k] w)" for k
  proof (induction k)
    case 0
    then show ?case using assms(1) by simp
  next
    case (Suc k)
    then show ?case using assms(2)[of k "fold f [0..<k] w"] by simp
  qed
  then show ?thesis by simp
qed

lemma lcm_dummy_pass_rule:
  assumes g: "greedy_inv slf w" and nd: "\<not> real_demand_left slf (d_left w)" and I0: "I 0 w"
    and skip: "\<And>w i. I i w \<Longrightarrow> I (Suc i) w"
    and step: "\<And>w i. greedy_inv slf w \<Longrightarrow> I i w \<Longrightarrow> i < self_m slf \<Longrightarrow> 0 \<le> dummy_col slf \<Longrightarrow>
        0 < s_left w ! i \<Longrightarrow> 0 < d_left w ! nat (dummy_col slf) \<Longrightarrow>
        I (Suc i) (allocate i (nat (dummy_col slf)) w)"
  shows "greedy_inv slf (lcm_dummy_pass slf w) \<and> I (self_m slf) (lcm_dummy_pass slf w) \<and>
         (\<forall>i<self_m slf. s_left (lcm_dummy_pass slf w) ! i = 0)"
proof (cases "0 \<le> dummy_col slf")
  case False
  have core: "inv_core slf w" using g by (simp add: greedy_inv_def)
  have "\<forall>b<self_n slf. d_left w ! b = 0"
    using nd False core by (auto simp add: real_demand_left_iff inv_core_def order_less_le)
  with inv_core_exhausted[OF core] have "\<forall>i<self_m slf. s_left w ! i = 0" by simp
  moreover have "I k w" for k
    using I0 skip by (induction k) auto
  then have "I (self_m slf) w" .
  ultimately show ?thesis using False g by (simp add: lcm_dummy_pass_def)
next
  case True
  let ?dc = "nat (dummy_col slf)"
  note dc = dummy_col_range[OF True]
  let ?J = "\<lambda>k w. greedy_inv slf w \<and> I k w \<and> (\<forall>i<k. s_left w ! i = 0) \<and>
                  (\<forall>b<self_n slf. b \<noteq> ?dc \<longrightarrow> d_left w ! b = 0)"
  have "?J (self_m slf) (fold (lcm_dummy_step slf) [0..<self_m slf] w)"
  proof (rule fold_upt_rule[where J = ?J])
    have core: "inv_core slf w" using g by (simp add: greedy_inv_def)
    have "\<forall>b<self_n slf. b \<noteq> ?dc \<longrightarrow> d_left w ! b = 0"
    proof (intro allI impI)
      fix b assume b: "b < self_n slf" "b \<noteq> ?dc"
      then have "int b \<noteq> dummy_col slf" using dc by auto
      then have "\<not> 0 < d_left w ! b" using nd b by (auto simp add: real_demand_left_iff)
      then show "d_left w ! b = 0" using core b by (auto simp add: inv_core_def order_less_le)
    qed
    then show "?J 0 w" using g I0 by simp
  next
    fix k w
    assume k: "k < self_m slf" and J: "?J k w"
    have g: "greedy_inv slf w" using J by simp
    have core: "inv_core slf w" using g by (simp add: greedy_inv_def)
    note len = inv_core_lengths[OF core]
    have nn: "\<forall>i<length (s_left w). 0 \<le> s_left w ! i" "\<forall>j<length (d_left w). 0 \<le> d_left w ! j"
      and bal: "sum_list (s_left w) = sum_list (d_left w)"
      using core by (simp_all add: inv_core_def)
    show "?J (Suc k) (lcm_dummy_step slf k w)"
    proof (cases "0 < s_left w ! k \<and> 0 < d_left w ! ?dc")
      case False
      have "s_left w ! k = 0"
      proof (cases "0 < s_left w ! k")
        case True
        then have "d_left w ! ?dc = 0" using False nn dc len by (auto simp add: order_less_le)
        then have "\<forall>b<self_n slf. d_left w ! b = 0" using J by auto
        with inv_core_exhausted[OF core] show ?thesis using k by simp
      next
        case False
        then show ?thesis using nn k len by (auto simp add: order_less_le)
      qed
      then have "\<forall>i<Suc k. s_left w ! i = 0" using J by (auto simp add: less_Suc_eq)
      then show ?thesis using False J skip[of k w] by (simp add: lcm_dummy_step_def)
    next
      case True
      let ?w = "allocate k ?dc w"
      have st: "lcm_dummy_step slf k w = ?w" using True by (simp add: lcm_dummy_step_def)
      have sk: "s_left w ! k \<noteq> 0" and dd: "d_left w ! ?dc \<noteq> 0" using True by auto
      have g': "greedy_inv slf ?w" using greedy_inv_allocate(1)[OF g k dc(1) sk dd] .
      have I': "I (Suc k) ?w" using step[OF g _ k \<open>0 \<le> dummy_col slf\<close>] J True by simp
      have "sum_list (d_left w) = d_left w ! ?dc"
        using sum_list_single[of "d_left w" ?dc] J dc len by simp
      moreover have "s_left w ! k \<le> sum_list (s_left w)"
        using nth_le_sum_nonneg[OF nn(1)] k len by simp
      ultimately have le: "s_left w ! k \<le> d_left w ! ?dc" using bal by simp
      have "s_left ?w ! k = 0" using le k len by (simp add: s_left_allocate)
      moreover have "\<forall>i<k. s_left ?w ! i = 0" using J by (simp add: s_left_allocate)
      ultimately have rows: "\<forall>i<Suc k. s_left ?w ! i = 0" by (auto simp add: less_Suc_eq)
      have cols: "\<forall>b<self_n slf. b \<noteq> ?dc \<longrightarrow> d_left ?w ! b = 0"
        using J by (simp add: d_left_allocate)
      show ?thesis unfolding st using g' I' rows cols by blast
    qed
  qed
  then show ?thesis using True by (simp add: lcm_dummy_pass_def)
qed

subsection \<open>The maximum-penalty scan\<close>

lemma max_penalty_steps:
  "max_penalty slf rp cp =
     fold (max_step cp False) [0..<self_n slf]
       (fold (max_step rp True) [0..<self_m slf] (- 1, True, None))"
proof -
  have 1: "(\<lambda>j (max_pen, is_row, idx).
             if cp ! j > max_pen then (cp ! j, False, Some j) else (max_pen, is_row, idx))
           = max_step cp False"
    by (intro ext) (auto simp add: max_step_def split: prod.splits)
  have 2: "(\<lambda>i (max_pen, is_row, idx).
             if rp ! i > max_pen then (rp ! i, True, Some i) else (max_pen, is_row, idx))
           = max_step rp True"
    by (intro ext) (auto simp add: max_step_def split: prod.splits)
  show ?thesis unfolding max_penalty_def 1 2 ..
qed

lemma max_scan:
  assumes "fold (max_step pen tag) [0..<len] (mx, t, idx) = (mx', t', idx')"
  shows "(\<forall>k<len. pen ! k \<le> mx') \<and> mx \<le> mx' \<and>
         ((\<forall>k<len. pen ! k \<le> mx) \<and> (mx', t', idx') = (mx, t, idx) \<or>
          (\<exists>k<len. idx' = Some k \<and> t' = tag \<and> mx' = pen ! k \<and> mx < pen ! k \<and>
                   (\<forall>k'<k. pen ! k' < pen ! k)))"
  using assms
proof (induction len arbitrary: mx' t' idx')
  case 0
  then show ?case by simp
next
  case (Suc len)
  obtain m1 t1 i1 where f: "fold (max_step pen tag) [0..<len] (mx, t, idx) = (m1, t1, i1)"
    by (cases "fold (max_step pen tag) [0..<len] (mx, t, idx)") auto
  note ih = Suc.IH[OF f]
  have le1: "\<forall>k<len. pen ! k \<le> m1" and mm: "mx \<le> m1" using ih by auto
  have r: "max_step pen tag len (m1, t1, i1) = (mx', t', idx')"
    using Suc.prems f by simp
  show ?case
  proof (cases "pen ! len > m1")
    case True
    then have e: "mx' = pen ! len" "t' = tag" "idx' = Some len"
      using r by (auto simp add: max_step_def)
    have b: "\<forall>k'<len. pen ! k' < pen ! len"
    proof (intro allI impI)
      fix k' assume "k' < len"
      then have "pen ! k' \<le> m1" using le1 by simp
      then show "pen ! k' < pen ! len" using True by simp
    qed
    have a: "\<forall>k<Suc len. pen ! k \<le> mx'"
      using b e by (auto simp add: less_Suc_eq less_imp_le)
    have c: "mx < pen ! len" using mm True by simp
    have "\<exists>k<Suc len. idx' = Some k \<and> t' = tag \<and> mx' = pen ! k \<and> mx < pen ! k \<and>
                   (\<forall>k'<k. pen ! k' < pen ! k)"
      using b c e by (intro exI[of _ len]) simp
    moreover have "mx \<le> mx'" using c e by simp
    ultimately show ?thesis using a by blast
  next
    case False
    then have e: "mx' = m1" "t' = t1" "idx' = i1" using r by (auto simp add: max_step_def)
    have a: "\<forall>k<Suc len. pen ! k \<le> mx'"
      using le1 False e by (auto simp add: less_Suc_eq)
    have mm': "mx \<le> mx'" using mm e by simp
    from ih have "(\<forall>k<len. pen ! k \<le> mx) \<and> (m1, t1, i1) = (mx, t, idx) \<or>
          (\<exists>k<len. i1 = Some k \<and> t1 = tag \<and> m1 = pen ! k \<and> mx < pen ! k \<and>
                   (\<forall>k'<k. pen ! k' < pen ! k))" by simp
    then show ?thesis
    proof
      assume h: "(\<forall>k<len. pen ! k \<le> mx) \<and> (m1, t1, i1) = (mx, t, idx)"
      then have "\<forall>k<Suc len. pen ! k \<le> mx" using False by (auto simp add: less_Suc_eq)
      moreover have "(mx', t', idx') = (mx, t, idx)" using h e by simp
      ultimately show ?thesis using a mm' by blast
    next
      assume "\<exists>k<len. i1 = Some k \<and> t1 = tag \<and> m1 = pen ! k \<and> mx < pen ! k \<and>
                   (\<forall>k'<k. pen ! k' < pen ! k)"
      then obtain k where "k < len" "i1 = Some k" "t1 = tag" "m1 = pen ! k" "mx < pen ! k"
        "\<forall>k'<k. pen ! k' < pen ! k" by blast
      then have "\<exists>k<Suc len. idx' = Some k \<and> t' = tag \<and> mx' = pen ! k \<and> mx < pen ! k \<and>
                   (\<forall>k'<k. pen ! k' < pen ! k)"
        using e by (intro exI[of _ k]) auto
      then show ?thesis using a mm' by blast
    qed
  qed
qed

lemma max_penalty_result:
  assumes "max_penalty slf rp cp = (mx, is_row, idx)"
  shows "(idx = None \<longrightarrow> (\<forall>i<self_m slf. rp ! i \<le> - 1) \<and> (\<forall>j<self_n slf. cp ! j \<le> - 1))"
    and "\<And>k. idx = Some k \<Longrightarrow> is_row \<Longrightarrow>
           k < self_m slf \<and> mx = rp ! k \<and> - 1 < rp ! k \<and> (\<forall>i<self_m slf. rp ! i \<le> rp ! k) \<and>
           (\<forall>i<k. rp ! i < rp ! k) \<and> (\<forall>j<self_n slf. cp ! j \<le> rp ! k)"
    and "\<And>k. idx = Some k \<Longrightarrow> \<not> is_row \<Longrightarrow>
           k < self_n slf \<and> mx = cp ! k \<and> - 1 < cp ! k \<and> (\<forall>i<self_m slf. rp ! i < cp ! k) \<and>
           (\<forall>j<self_n slf. cp ! j \<le> cp ! k) \<and> (\<forall>j<k. cp ! j < cp ! k)"
proof -
  obtain m1 t1 i1 where f1: "fold (max_step rp True) [0..<self_m slf] (- 1, True, None) = (m1, t1, i1)"
    by (cases "fold (max_step rp True) [0..<self_m slf] (- 1, True, None)") auto
  have f2: "fold (max_step cp False) [0..<self_n slf] (m1, t1, i1) = (mx, is_row, idx)"
    using assms f1 by (simp add: max_penalty_steps)
  note r1 = max_scan[OF f1]
  note r2 = max_scan[OF f2]
  have rows: "(\<forall>i<self_m slf. rp ! i \<le> - 1) \<and> (m1, t1, i1) = (- 1, True, None) \<or>
     (\<exists>k<self_m slf. i1 = Some k \<and> t1 = True \<and> m1 = rp ! k \<and> - 1 < rp ! k \<and> (\<forall>k'<k. rp ! k' < rp ! k))"
    using r1 by simp
  have rmax: "\<forall>i<self_m slf. rp ! i \<le> m1" and m1: "- 1 \<le> m1" using r1 by auto
  have cols: "(\<forall>j<self_n slf. cp ! j \<le> m1) \<and> (mx, is_row, idx) = (m1, t1, i1) \<or>
     (\<exists>k<self_n slf. idx = Some k \<and> is_row = False \<and> mx = cp ! k \<and> m1 < cp ! k \<and> (\<forall>k'<k. cp ! k' < cp ! k))"
    using r2 by simp
  have cmax: "\<forall>j<self_n slf. cp ! j \<le> mx" and mx: "m1 \<le> mx" using r2 by auto
  have t1: "t1 = True" using rows by auto
  show "idx = None \<longrightarrow> (\<forall>i<self_m slf. rp ! i \<le> - 1) \<and> (\<forall>j<self_n slf. cp ! j \<le> - 1)"
    using rows cols by auto
  show "k < self_m slf \<and> mx = rp ! k \<and> - 1 < rp ! k \<and> (\<forall>i<self_m slf. rp ! i \<le> rp ! k) \<and>
           (\<forall>i<k. rp ! i < rp ! k) \<and> (\<forall>j<self_n slf. cp ! j \<le> rp ! k)"
    if "idx = Some k" "is_row" for k
  proof -
    from cols that have u: "(\<forall>j<self_n slf. cp ! j \<le> m1)" "(mx, is_row, idx) = (m1, t1, i1)" by auto
    with rows that have "k < self_m slf \<and> m1 = rp ! k \<and> - 1 < rp ! k \<and> (\<forall>k'<k. rp ! k' < rp ! k)"
      by auto
    then show ?thesis using u rmax by auto
  qed
  show "k < self_n slf \<and> mx = cp ! k \<and> - 1 < cp ! k \<and> (\<forall>i<self_m slf. rp ! i < cp ! k) \<and>
           (\<forall>j<self_n slf. cp ! j \<le> cp ! k) \<and> (\<forall>j<k. cp ! j < cp ! k)"
    if "idx = Some k" "\<not> is_row" for k
  proof -
    from cols that t1 have "k < self_n slf \<and> mx = cp ! k \<and> m1 < cp ! k \<and> (\<forall>k'<k. cp ! k' < cp ! k)"
      by auto
    then show ?thesis using rmax cmax m1 by force
  qed
qed

subsection \<open>Vogel: penalties, selection and the loop\<close>



lemma penalty_of_nonneg:
  assumes "1 \<le> length costs"
  shows "0 \<le> penalty_of costs"
proof (cases "2 \<le> length costs")
  case True
  have "sorted (sort costs)" by simp
  then have "sort costs ! 0 \<le> sort costs ! 1"
    using True by (intro sorted_nth_mono) simp_all
  then show ?thesis using True by (simp add: penalty_of_def)
next
  case False
  then show ?thesis using assms by (simp add: penalty_of_def)
qed



lemma row_pen_nth:
  assumes "i < self_m slf"
  shows "row_pen slf ar ac w ! i =
     (if \<not> ar ! i \<or> s_left w ! i = 0 then - 1
      else penalty_of (map (\<lambda>j. cost_matrix slf ! i ! j)
                        (filter (\<lambda>j. ac ! j \<and> d_left w ! j > 0) [0..<self_n slf])))"
  using assms by (simp add: row_pen_def)

lemma col_pen_nth:
  assumes "j < self_n slf"
  shows "col_pen slf ar ac w ! j =
     (if \<not> ac ! j \<or> d_left w ! j = 0 then - 1
      else penalty_of (map (\<lambda>i. cost_matrix slf ! i ! j)
                        (filter (\<lambda>i. ar ! i \<and> s_left w ! i > 0) [0..<self_m slf])))"
  using assms by (simp add: col_pen_def)

lemma filter_upt_nonempty:
  assumes "k < n" "P k"
  shows "1 \<le> length (filter P [0..<n])"
proof -
  have "k \<in> set (filter P [0..<n])" using assms by simp
  then have "0 < length (filter P [0..<n])" by (rule length_pos_if_in_set)
  then show ?thesis by linarith
qed

lemma vam_continue_iff:
  "vam_continue slf ar ac w \<longleftrightarrow>
     (\<exists>i<self_m slf. 0 < s_left w ! i \<and> ar ! i) \<and> (\<exists>j<self_n slf. 0 < d_left w ! j \<and> ac ! j)"
  by (auto simp add: vam_continue_def list_ex_iff)

lemma vam_select_Some:
  assumes c: "vam_continue slf ar ac w"
    and ns: "\<forall>i<self_m slf. 0 \<le> s_left w ! i" and nd: "\<forall>j<self_n slf. 0 \<le> d_left w ! j"
  shows "\<exists>i j c. vam_select slf ar ac w = Some (i, j, c) \<and> i < self_m slf \<and> j < self_n slf \<and>
           0 < s_left w ! i \<and> 0 < d_left w ! j"
proof -
  let ?rp = "row_pen slf ar ac w" and ?cp = "col_pen slf ar ac w"
  obtain mx is_row idx where mp: "max_penalty slf ?rp ?cp = (mx, is_row, idx)"
    by (cases "max_penalty slf ?rp ?cp") auto
  note r = max_penalty_result[OF mp]
  from c obtain i0 j0 where i0: "i0 < self_m slf" "0 < s_left w ! i0" "ar ! i0"
    and j0: "j0 < self_n slf" "0 < d_left w ! j0" "ac ! j0"
    by (auto simp add: vam_continue_iff)
  have "0 \<le> ?rp ! i0"
    using i0 filter_upt_nonempty[of j0 "self_n slf" "\<lambda>j. ac ! j \<and> d_left w ! j > 0"] j0
    by (simp add: row_pen_nth penalty_of_nonneg)
  then have "idx \<noteq> None" using r(1) i0 by force
  then obtain k where k: "idx = Some k" by auto
  show ?thesis
  proof (cases is_row)
    case True
    from r(2)[OF k True] have km: "k < self_m slf" and pk: "- 1 < ?rp ! k" by auto
    then have sk: "ar ! k \<and> s_left w ! k \<noteq> 0" by (auto simp add: row_pen_nth split: if_splits)
    then have sk': "0 < s_left w ! k" using ns km by (auto simp add: order_less_le)
    have sel: "vam_select slf ar ac w = min_in_row slf ac w k"
      using mp k True by (simp add: vam_select_def)
    show ?thesis
    proof (cases "min_in_row slf ac w k")
      case None
      from min_in_row_None[OF None] j0 show ?thesis by auto
    next
      case (Some t)
      obtain a b c where t: "t = (a, b, c)" by (cases t) auto
      from min_in_row_Some[OF Some[unfolded t]] sel Some t km sk' show ?thesis by auto
    qed
  next
    case False
    from r(3)[OF k False] have kn: "k < self_n slf" and pk: "- 1 < ?cp ! k" by auto
    then have dk: "ac ! k \<and> d_left w ! k \<noteq> 0" by (auto simp add: col_pen_nth split: if_splits)
    then have dk': "0 < d_left w ! k" using nd kn by (auto simp add: order_less_le)
    have sel: "vam_select slf ar ac w = min_in_col slf ar w k"
      using mp k False by (simp add: vam_select_def)
    show ?thesis
    proof (cases "min_in_col slf ar w k")
      case None
      from min_in_col_None[OF None] i0 show ?thesis by auto
    next
      case (Some t)
      obtain a b c where t: "t = (a, b, c)" by (cases t) auto
      from min_in_col_Some[OF Some[unfolded t]] sel Some t kn dk' show ?thesis by auto
    qed
  qed
qed

lemma vam_loop_rule:
  assumes "vam_inv slf ar ac w" and "I w"
    and step: "\<And>w i j. greedy_inv slf w \<Longrightarrow> I w \<Longrightarrow> i < self_m slf \<Longrightarrow> j < self_n slf \<Longrightarrow>
        0 < s_left w ! i \<Longrightarrow> 0 < d_left w ! j \<Longrightarrow> I (allocate i j w)"
  shows "\<exists>ar' ac' w'. vam_loop slf ar ac w = Some (ar', ac', w') \<and> vam_inv slf ar' ac' w' \<and> I w' \<and>
           (\<forall>i<self_m slf. s_left w' ! i = 0) \<and> (\<forall>j<self_n slf. d_left w' ! j = 0)"
  using assms(1,2)
proof (induction "pot w" arbitrary: ar ac w rule: less_induct)
  case less
  have g: "greedy_inv slf w" using less.prems(1) by (simp add: vam_inv_def)
  have core: "inv_core slf w" using g by (simp add: greedy_inv_def)
  note len = inv_core_lengths[OF core]
  have ns: "\<forall>i<self_m slf. 0 \<le> s_left w ! i" and nd: "\<forall>j<self_n slf. 0 \<le> d_left w ! j"
    using core by (simp_all add: inv_core_def)
  show ?case
  proof (cases "vam_continue slf ar ac w")
    case False
    have "(\<forall>i<self_m slf. s_left w ! i = 0) \<or> (\<forall>j<self_n slf. d_left w ! j = 0)"
    proof (rule ccontr)
      assume "\<not> ?thesis"
      then obtain i j where "i < self_m slf" "s_left w ! i \<noteq> 0" "j < self_n slf" "d_left w ! j \<noteq> 0"
        by auto
      then have "i < self_m slf \<and> 0 < s_left w ! i \<and> ar ! i" "j < self_n slf \<and> 0 < d_left w ! j \<and> ac ! j"
        using less.prems(1) ns nd by (auto simp add: vam_inv_def order_less_le)
      then show False using False unfolding vam_continue_iff by blast
    qed
    from inv_core_exhausted[OF core this] show ?thesis
      using False less.prems by (subst vam_loop.simps) simp
  next
    case True
    from vam_select_Some[OF True ns nd] obtain i j c where
      sel: "vam_select slf ar ac w = Some (i, j, c)" and i: "i < self_m slf" and j: "j < self_n slf"
      and si: "0 < s_left w ! i" and dj: "0 < d_left w ! j" by blast
    let ?w = "allocate i j w"
    let ?ar = "if s_left ?w ! i = 0 then ar[i := False] else ar"
    let ?ac = "if d_left ?w ! j = 0 then ac[j := False] else ac"
    have g': "greedy_inv slf ?w" using greedy_inv_allocate(1)[OF g i j] si dj by simp
    have la: "length ar = self_m slf" "length ac = self_n slf"
      and act: "\<forall>a<self_m slf. s_left w ! a \<noteq> 0 \<longrightarrow> ar ! a"
        "\<forall>b<self_n slf. d_left w ! b \<noteq> 0 \<longrightarrow> ac ! b"
      using less.prems(1) by (simp_all add: vam_inv_def)
    have "?ar ! a" if a: "a < self_m slf" "s_left ?w ! a \<noteq> 0" for a
    proof (cases "a = i")
      case True
      then show ?thesis using a act(1) si i by auto
    next
      case False
      then have "s_left ?w ! a = s_left w ! a" by (simp add: s_left_allocate)
      then show ?thesis using a act(1) False by (auto simp add: nth_list_update)
    qed
    then have "\<forall>a<self_m slf. s_left ?w ! a \<noteq> 0 \<longrightarrow> ?ar ! a" by blast
    moreover have "?ac ! b" if b: "b < self_n slf" "d_left ?w ! b \<noteq> 0" for b
    proof (cases "b = j")
      case True
      then show ?thesis using b act(2) dj j by auto
    next
      case False
      then have "d_left ?w ! b = d_left w ! b" by (simp add: d_left_allocate)
      then show ?thesis using b act(2) False by (auto simp add: nth_list_update)
    qed
    then have "\<forall>b<self_n slf. d_left ?w ! b \<noteq> 0 \<longrightarrow> ?ac ! b" by blast
    ultimately have inv': "vam_inv slf ?ar ?ac ?w"
      using g' less.prems(1) by (simp add: vam_inv_def)
    have I': "I ?w" using step[OF g less.prems(2) i j si dj] .
    have "pot ?w < pot w" using pot_allocate(1)[of i w j] i j si dj len by simp
    from less.hyps[OF this inv' I']
    show ?thesis using True sel by (subst vam_loop.simps) (simp add: Let_def)
  qed
qed

lemma vam_inv_start: "wf_solver slf \<Longrightarrow>
  vam_inv slf (replicate (self_m slf) True) (replicate (self_n slf) True) (start_work slf)"
  using greedy_inv_start[of slf] by (simp add: vam_inv_def)

subsection \<open>Complete runs of Least Cost and Vogel\<close>

lemma basic_log_start:
  assumes "wf_solver slf"
  shows "basic_log slf (start_work slf)"
proof -
  have "pot (start_work slf) \<le> self_m slf + self_n slf"
    using assms count_nz_le[of "self_supply slf"] count_nz_le[of "self_demand slf"]
    by (simp add: pot_def start_work_def wf_solver_def)
  then have "length (steps (start_work slf)) + max 1 (pot (start_work slf))
        \<le> max 1 (self_m slf + self_n slf)"
    by (simp add: start_work_def)
  then show ?thesis
    using trace_inv_start[of slf] by (simp add: basic_log_def trace_all_def) (simp add: start_work_def)
qed

lemma basic_log_allocate:
  assumes g: "greedy_inv slf w" and b: "basic_log slf w"
    and i: "i < self_m slf" and j: "j < self_n slf"
    and si: "0 < s_left w ! i" and dj: "0 < d_left w ! j"
  shows "basic_log slf (allocate i j w)"
proof -
  have core: "inv_core slf w" using g by (simp add: greedy_inv_def)
  note len = inv_core_lengths[OF core]
  have z: "alloc w ! i ! j = 0" using greedy_inv_allocate(2)[OF g i j] si dj by simp
  have tr: "trace_inv slf w" using b by (simp add: basic_log_def)
  have 1: "trace_inv slf (allocate i j w)" by (rule trace_inv_allocate[OF tr core i j z])
  have 2: "trace_all slf (\<lambda>b r. 0 < qty r) (steps (allocate i j w))"
    using trace_all_allocate[where Q = "\<lambda>b r. 0 < qty r" and slf = slf and w = w and i = i and j = j]
      tr b si dj by (simp add: basic_log_def)
  have p: "2 \<le> pot w" "pot (allocate i j w) + 1 \<le> pot w"
    using pot_allocate(2,3)[of i w j] i j si dj len by simp_all
  have "length (steps (allocate i j w)) + max 1 (pot (allocate i j w))
        \<le> length (steps w) + max 1 (pot w)"
    using p by (simp add: steps_allocate)
  then have 3: "length (steps (allocate i j w)) + max 1 (pot (allocate i j w))
        \<le> max 1 (self_m slf + self_n slf)"
    using b by (simp add: basic_log_def)
  show ?thesis unfolding basic_log_def using 1 2 3 by blast
qed

lemma basic_log_length:
  assumes "basic_log slf w" "1 \<le> self_m slf"
  shows "length (steps w) + 1 \<le> self_m slf + self_n slf"
proof -
  have "length (steps w) + max 1 (pot w) \<le> max 1 (self_m slf + self_n slf)"
    using assms(1) by (simp add: basic_log_def)
  then show ?thesis using assms(2) by (simp add: max_def split: if_splits)
qed

lemma trace_all_set:
  assumes "trace_all slf (\<lambda>b r. P r) stps"
  shows "\<forall>r\<in>set stps. P r"
  using assms by (auto simp add: trace_all_def in_set_conv_nth)

lemma vam_run:
  assumes wf: "wf_solver slf"
  shows "\<exists>w. solve_vam slf = Some w \<and> greedy_inv slf w \<and> basic_log slf w \<and>
           (\<forall>i<self_m slf. s_left w ! i = 0)"
proof -
  have "\<exists>ar' ac' w'. vam_loop slf (replicate (self_m slf) True) (replicate (self_n slf) True)
             (start_work slf) = Some (ar', ac', w') \<and>
           vam_inv slf ar' ac' w' \<and> basic_log slf w' \<and>
           (\<forall>i<self_m slf. s_left w' ! i = 0) \<and> (\<forall>j<self_n slf. d_left w' ! j = 0)"
    by (rule vam_loop_rule[where I = "basic_log slf", OF vam_inv_start[OF wf] basic_log_start[OF wf]])
       (rule basic_log_allocate)
  then show ?thesis by (auto simp add: solve_vam_def vam_inv_def)
qed

lemma lcm_run:
  assumes wf: "wf_solver slf"
  shows "\<exists>w1 w extra. lcm_loop slf (start_work slf) = Some w1 \<and> solve_least_cost slf = Some w \<and>
           greedy_inv slf w \<and> basic_log slf w \<and> (\<forall>i<self_m slf. s_left w ! i = 0) \<and>
           trace_inv slf w1 \<and> greedy_inv slf w1 \<and>
           trace_all slf (lcm_pick slf) (steps w1) \<and> \<not> real_demand_left slf (d_left w1) \<and>
           steps w = steps w1 @ extra \<and> dummy_tail slf extra (self_m slf)"
proof -
  from lcm_main[where I = "basic_log slf", OF wf basic_log_start[OF wf]]
  obtain w1 where r1: "lcm_loop slf (start_work slf) = Some w1" and g1: "greedy_inv slf w1"
    and p1: "trace_all slf (lcm_pick slf) (steps w1)" and b1: "basic_log slf w1"
    and t1: "trace_inv slf w1"
    and nd: "\<not> real_demand_left slf (d_left w1)"
    using basic_log_allocate by blast
  let ?I = "\<lambda>k w. basic_log slf w \<and> (\<exists>extra. steps w = steps w1 @ extra \<and> dummy_tail slf extra k)"
  let ?w = "lcm_dummy_pass slf w1"
  have "greedy_inv slf ?w \<and> ?I (self_m slf) ?w \<and> (\<forall>i<self_m slf. s_left ?w ! i = 0)"
  proof (rule lcm_dummy_pass_rule[where I = ?I, OF g1 nd])
    show "?I 0 w1" using b1 by (simp add: dummy_tail_def)
  next
    fix w i assume "?I i w"
    then show "?I (Suc i) w" by (auto simp add: dummy_tail_def less_Suc_eq)
  next
    fix w i
    assume g: "greedy_inv slf w" and I: "?I i w" and i: "i < self_m slf"
      and dc: "0 \<le> dummy_col slf" and si: "0 < s_left w ! i"
      and dd: "0 < d_left w ! nat (dummy_col slf)"
    note dr = dummy_col_range[OF dc]
    from I obtain extra where b: "basic_log slf w" and e: "steps w = steps w1 @ extra"
      and t: "dummy_tail slf extra i" by blast
    let ?r = "\<lparr>src = i, dst = nat (dummy_col slf),
        qty = min (s_left w ! i) (d_left w ! nat (dummy_col slf)),
        alloc_after = alloc (allocate i (nat (dummy_col slf)) w),
        s_after = s_left (allocate i (nat (dummy_col slf)) w),
        d_after = d_left (allocate i (nat (dummy_col slf)) w)\<rparr>"
    have b': "basic_log slf (allocate i (nat (dummy_col slf)) w)"
      by (rule basic_log_allocate[OF g b i dr(1) si dd])
    have e': "steps (allocate i (nat (dummy_col slf)) w) = steps w1 @ (extra @ [?r])"
      using e by (simp add: steps_allocate)
    have t': "dummy_tail slf (extra @ [?r]) (Suc i)"
      using t dr by (auto simp add: dummy_tail_def sorted_wrt_append less_Suc_eq)
    show "?I (Suc i) (allocate i (nat (dummy_col slf)) w)" using b' e' t' by blast
  qed
  then show ?thesis using r1 p1 nd t1 g1 by (auto simp add: solve_least_cost_def)
qed

subsection \<open>Traces satisfy the stated properties\<close>

lemma trace_inv_step_ok:
  assumes "trace_inv slf w" "k < length (steps w)"
  shows "step_ok slf (snapshots slf (steps w) ! k) (steps w ! k)"
  using assms by (simp add: trace_inv_def)

lemma trace_inv_nonneg_nonincreasing:
  assumes "trace_inv slf w"
  shows "nonneg_nonincreasing slf (steps w)"
proof -
  have "case snapshots slf (steps w) ! k of (a, sv, dv) \<Rightarrow>
          0 \<le> qty (steps w ! k) \<and>
          length (s_after (steps w ! k)) = length sv \<and> length (d_after (steps w ! k)) = length dv \<and>
          (\<forall>i<length sv. 0 \<le> s_after (steps w ! k) ! i \<and> s_after (steps w ! k) ! i \<le> sv ! i) \<and>
          (\<forall>j<length dv. 0 \<le> d_after (steps w ! k) ! j \<and> d_after (steps w ! k) ! j \<le> dv ! j)"
    if k: "k < length (steps w)" for k
  proof -
    obtain a sv dv where b: "snapshots slf (steps w) ! k = (a, sv, dv)"
      by (cases "snapshots slf (steps w) ! k") auto
    have ok: "step_ok slf (a, sv, dv) (steps w ! k)"
      using trace_inv_step_ok[OF assms k] unfolding b .
    show ?thesis unfolding b using step_ok_facts(1-5)[OF ok] by simp
  qed
  then show ?thesis by (simp add: nonneg_nonincreasing_def)
qed


lemma nwc_moves_from_inv:
  assumes t: "trace_inv slf w" and c: "cursor_inv slf i j w"
  shows "nwc_moves slf (steps w) (i, j)"
proof -
  have p0: "cursor_path (steps w) (i, j) ! 0 = (0, 0)" using c by (simp add: cursor_inv_def)
  have "let r = steps w ! k; i' = src r; j' = dst r;
            row_done = (s_after r ! i' = 0); col_done = (d_after r ! j' = 0);
            nxt = cursor_path (steps w) (i, j) ! Suc k
        in i' < self_m slf \<and> j' < self_n slf \<and> (row_done \<or> col_done) \<and>
           (case snapshots slf (steps w) ! k of (a, sv, dv) \<Rightarrow>
              qty r = min (sv ! i') (dv ! j') \<and> alloc_after r = a[i' := (a ! i')[j' := qty r]] \<and>
              s_after r = sv[i' := sv ! i' - qty r] \<and> d_after r = dv[j' := dv ! j' - qty r]) \<and>
           (row_done \<and> col_done \<longrightarrow>
              nxt = (if j' + 1 < self_n slf then (i', j' + 1) else (i' + 1, j'))) \<and>
           (row_done \<and> \<not> col_done \<longrightarrow> nxt = (i' + 1, j')) \<and>
           (\<not> row_done \<and> col_done \<longrightarrow> nxt = (i', j' + 1))"
    if k: "k < length (steps w)" for k
  proof -
    obtain a sv dv where b: "snapshots slf (steps w) ! k = (a, sv, dv)"
      by (cases "snapshots slf (steps w) ! k") auto
    have ok: "step_ok slf (a, sv, dv) (steps w ! k)"
      using trace_inv_step_ok[OF t k] unfolding b .
    note h = ok[unfolded step_ok_def, simplified]
    have nx: "cursor_path (steps w) (i, j) ! Suc k =
        nwc_advance slf (src (steps w ! k)) (dst (steps w ! k))
          (s_after (steps w ! k)) (d_after (steps w ! k))"
      using c k by (simp add: cursor_inv_def)
    have dn: "s_after (steps w ! k) ! src (steps w ! k) = 0 \<or>
                d_after (steps w ! k) ! dst (steps w ! k) = 0"
      using h by (auto simp add: min_def)
    show ?thesis unfolding b Let_def nx using h dn by (auto simp add: nwc_advance_def)
  qed
  then show ?thesis using p0 by (simp add: nwc_moves_def)
qed

subsection \<open>The cost evaluator as a double sum\<close>

lemma fold_add_sum_list:
  fixes g :: "'a \<Rightarrow> int"
  shows "fold (\<lambda>x t. t + g x) xs t0 = t0 + sum_list (map g xs)"
  by (induction xs arbitrary: t0) simp_all

lemma sum_list_map_cong:
  fixes f g :: "'a \<Rightarrow> 'b::monoid_add"
  assumes "\<And>x. x \<in> set xs \<Longrightarrow> f x = g x"
  shows "sum_list (map f xs) = sum_list (map g xs)"
  using assms by (induction xs) simp_all

lemma of_int_sum_list_map:
  "(of_int (sum_list (map f xs)) :: rat) = sum_list (map (\<lambda>x. of_int (f x)) xs)"
  by (induction xs) simp_all

lemma py_int_of_int: "py_int (of_int k) = k"
  by (simp add: py_int_def)

lemma py_int_Ints: "c \<in> \<int> \<Longrightarrow> of_int (py_int c) = c"
  by (auto simp add: Ints_def py_int_of_int)

lemma print_cost_equation_sum:
  "print_cost_equation slf al =
     (\<Sum>i\<leftarrow>[0..<self_m slf]. \<Sum>j\<leftarrow>[0..<self_n slf]. cost_term slf al i j)"
proof -
  have inner: "(\<lambda>j total.
                   (let q = al ! i ! j;
                        is_dummy = (dummy_type slf = Some ''demand'' \<and> int j = int (self_n slf) - 1)
                    in if q > 0 \<and> \<not> is_dummy
                       then total + py_int (cost_matrix slf ! i ! j) * q
                       else total)) = (\<lambda>j t. t + cost_term slf al i j)" for i
    by (intro ext) (auto simp add: cost_term_def Let_def)
  show ?thesis
    unfolding print_cost_equation_def inner fold_add_sum_list
    by (simp add: fold_add_sum_list)
qed

lemma cost_term_nonneg:
  assumes "0 \<le> al ! i ! j"
  shows "cost_term slf al i j =
     (if dummy_type slf = Some ''demand'' \<and> int j = int (self_n slf) - 1 then 0
      else py_int (cost_matrix slf ! i ! j) * al ! i ! j)"
  using assms by (auto simp add: cost_term_def order_less_le)

lemma real_flows_only:
  assumes v: "valid_input c sply dmnd"
    and nn: "\<forall>i<self_m (TransportationSolver c sply dmnd).
               \<forall>j<self_n (TransportationSolver c sply dmnd). 0 \<le> al ! i ! j"
  shows "print_cost_equation (TransportationSolver c sply dmnd) al =
     (\<Sum>i\<leftarrow>[0..<length sply]. \<Sum>j\<leftarrow>[0..<length dmnd]. py_int (c ! i ! j) * al ! i ! j)"
proof -
  let ?slf = "TransportationSolver c sply dmnd"
  have lc: "length c = length sply" and rows: "\<forall>i<length c. length (c ! i) = length dmnd"
    using v by (simp_all add: valid_input_def list_all_length)
  consider (gt) "sum_list sply > sum_list dmnd" | (lt) "sum_list sply < sum_list dmnd"
    | (eq) "sum_list sply = sum_list dmnd" by linarith
  then show ?thesis
  proof cases
    case gt
    then have f: "self_m ?slf = length sply" "self_n ?slf = length dmnd + 1"
      "dummy_type ?slf = Some ''demand''" "cost_matrix ?slf = map (\<lambda>row. row @ [0]) c"
      by (simp_all add: TransportationSolver_def balance_problem_def Let_def)
    have row: "(\<Sum>j\<leftarrow>[0..<length dmnd + 1]. cost_term ?slf al i j) =
               (\<Sum>j\<leftarrow>[0..<length dmnd]. py_int (c ! i ! j) * al ! i ! j)"
      if i: "i < length sply" for i
    proof -
      have last: "cost_term ?slf al i (length dmnd) = 0" by (simp add: cost_term_def f)
      have "cost_term ?slf al i j = py_int (c ! i ! j) * al ! i ! j" if "j \<in> set [0..<length dmnd]" for j
      proof -
        have j: "j < length dmnd" using that by simp
        have "0 \<le> al ! i ! j" using nn i j f by simp
        then show ?thesis using i j lc rows
          by (simp add: cost_term_nonneg f nth_append)
      qed
      then have "(\<Sum>j\<leftarrow>[0..<length dmnd]. cost_term ?slf al i j) =
                 (\<Sum>j\<leftarrow>[0..<length dmnd]. py_int (c ! i ! j) * al ! i ! j)"
        by (rule sum_list_map_cong)
      then show ?thesis using last by simp
    qed
    have "(\<Sum>i\<leftarrow>[0..<length sply]. \<Sum>j\<leftarrow>[0..<length dmnd + 1]. cost_term ?slf al i j) =
          (\<Sum>i\<leftarrow>[0..<length sply]. \<Sum>j\<leftarrow>[0..<length dmnd]. py_int (c ! i ! j) * al ! i ! j)"
    proof (rule sum_list_map_cong)
      fix i assume "i \<in> set [0..<length sply]"
      then have "i < length sply" by simp
      then show "(\<Sum>j\<leftarrow>[0..<length dmnd + 1]. cost_term ?slf al i j) =
                 (\<Sum>j\<leftarrow>[0..<length dmnd]. py_int (c ! i ! j) * al ! i ! j)" by (rule row)
    qed
    then show ?thesis unfolding print_cost_equation_sum f(1,2) .
  next
    case lt
    then have f: "self_m ?slf = length sply + 1" "self_n ?slf = length dmnd"
      "dummy_type ?slf = Some ''supply''" "cost_matrix ?slf = c @ [replicate (length dmnd) 0]"
      by (simp_all add: TransportationSolver_def balance_problem_def Let_def)
    have row: "(\<Sum>j\<leftarrow>[0..<length dmnd]. cost_term ?slf al i j) =
               (\<Sum>j\<leftarrow>[0..<length dmnd]. py_int (c ! i ! j) * al ! i ! j)"
      if i: "i < length sply" for i
    proof (rule sum_list_map_cong)
      fix j assume "j \<in> set [0..<length dmnd]"
      then have j: "j < length dmnd" by simp
      have "0 \<le> al ! i ! j" using nn i j f by simp
      then show "cost_term ?slf al i j = py_int (c ! i ! j) * al ! i ! j"
        using i j lc by (simp add: cost_term_nonneg f nth_append)
    qed
    have "cost_term ?slf al (length sply) j = 0" if "j \<in> set [0..<length dmnd]" for j
      using that lc by (simp add: cost_term_def f nth_append py_int_def)
    then have "(\<Sum>j\<leftarrow>[0..<length dmnd]. cost_term ?slf al (length sply) j) =
               (\<Sum>j\<leftarrow>[0..<length dmnd]. 0)"
      by (rule sum_list_map_cong)
    then have dummy: "(\<Sum>j\<leftarrow>[0..<length dmnd]. cost_term ?slf al (length sply) j) = 0" by simp
    have "(\<Sum>i\<leftarrow>[0..<length sply]. \<Sum>j\<leftarrow>[0..<length dmnd]. cost_term ?slf al i j) =
          (\<Sum>i\<leftarrow>[0..<length sply]. \<Sum>j\<leftarrow>[0..<length dmnd]. py_int (c ! i ! j) * al ! i ! j)"
    proof (rule sum_list_map_cong)
      fix i assume "i \<in> set [0..<length sply]"
      then have "i < length sply" by simp
      then show "(\<Sum>j\<leftarrow>[0..<length dmnd]. cost_term ?slf al i j) =
                 (\<Sum>j\<leftarrow>[0..<length dmnd]. py_int (c ! i ! j) * al ! i ! j)" by (rule row)
    qed
    then show ?thesis using dummy unfolding print_cost_equation_sum f(1,2) by simp
  next
    case eq
    then have f: "self_m ?slf = length sply" "self_n ?slf = length dmnd"
      "dummy_type ?slf = None" "cost_matrix ?slf = c"
      by (simp_all add: TransportationSolver_def balance_problem_def Let_def)
    have row: "(\<Sum>j\<leftarrow>[0..<length dmnd]. cost_term ?slf al i j) =
               (\<Sum>j\<leftarrow>[0..<length dmnd]. py_int (c ! i ! j) * al ! i ! j)"
      if i: "i < length sply" for i
    proof (rule sum_list_map_cong)
      fix j assume "j \<in> set [0..<length dmnd]"
      then have j: "j < length dmnd" by simp
      have "0 \<le> al ! i ! j" using nn i j f by simp
      then show "cost_term ?slf al i j = py_int (c ! i ! j) * al ! i ! j"
        by (simp add: cost_term_nonneg f)
    qed
    have "(\<Sum>i\<leftarrow>[0..<length sply]. \<Sum>j\<leftarrow>[0..<length dmnd]. cost_term ?slf al i j) =
          (\<Sum>i\<leftarrow>[0..<length sply]. \<Sum>j\<leftarrow>[0..<length dmnd]. py_int (c ! i ! j) * al ! i ! j)"
    proof (rule sum_list_map_cong)
      fix i assume "i \<in> set [0..<length sply]"
      then have "i < length sply" by simp
      then show "(\<Sum>j\<leftarrow>[0..<length dmnd]. cost_term ?slf al i j) =
                 (\<Sum>j\<leftarrow>[0..<length dmnd]. py_int (c ! i ! j) * al ! i ! j)" by (rule row)
    qed
    then show ?thesis unfolding print_cost_equation_sum f(1,2) .
  qed
qed

lemma integral_costs_total:
  assumes "\<forall>i<m. \<forall>j<n. (c :: rat list list) ! i ! j \<in> \<int>"
  shows "(of_int (\<Sum>i\<leftarrow>[0..<m]. \<Sum>j\<leftarrow>[0..<n]. py_int (c ! i ! j) * al ! i ! j) :: rat) =
         (\<Sum>i\<leftarrow>[0..<m]. \<Sum>j\<leftarrow>[0..<n]. c ! i ! j * of_int (al ! i ! j))"
proof -
  have "(\<Sum>j\<leftarrow>[0..<n]. (of_int (py_int (c ! i ! j) * al ! i ! j) :: rat)) =
        (\<Sum>j\<leftarrow>[0..<n]. c ! i ! j * of_int (al ! i ! j))" if "i \<in> set [0..<m]" for i
    by (rule sum_list_map_cong) (use that assms in \<open>simp add: py_int_Ints\<close>)
  then have "(\<Sum>i\<leftarrow>[0..<m]. \<Sum>j\<leftarrow>[0..<n]. (of_int (py_int (c ! i ! j) * al ! i ! j) :: rat)) =
        (\<Sum>i\<leftarrow>[0..<m]. \<Sum>j\<leftarrow>[0..<n]. c ! i ! j * of_int (al ! i ! j))"
    by (rule sum_list_map_cong)
  then show ?thesis by (simp add: of_int_sum_list_map)
qed

section \<open>Balancing\<close>

text \<open>
  C2. For every input, after construction the stored supply and demand have equal sums.
  The dummy kind is "demand" exactly when the original total supply exceeds the total
  demand, and then one destination whose demand is the difference is appended and a zero
  is appended to every cost row; it is "supply" exactly when the total demand exceeds the
  total supply, and then one source whose supply is the difference and one row of zeros
  are appended; it is None exactly when the totals are equal, and then nothing changes.
\<close>

theorem balance_problem_balanced:
  fixes c :: CostMatrix and sply dmnd :: Vector
  defines "slf \<equiv> TransportationSolver c sply dmnd"
  shows "sum_list (self_supply slf) = sum_list (self_demand slf)
    \<and> (dummy_type slf = Some ''demand'' \<longleftrightarrow> sum_list sply > sum_list dmnd)
    \<and> (dummy_type slf = Some ''supply'' \<longleftrightarrow> sum_list sply < sum_list dmnd)
    \<and> (dummy_type slf = None \<longleftrightarrow> sum_list sply = sum_list dmnd)
    \<and> (sum_list sply > sum_list dmnd \<longrightarrow>
         self_demand slf = dmnd @ [sum_list sply - sum_list dmnd] \<and> self_supply slf = sply
         \<and> cost_matrix slf = map (\<lambda>row. row @ [0]) c
         \<and> self_n slf = length dmnd + 1 \<and> self_m slf = length sply)
    \<and> (sum_list sply < sum_list dmnd \<longrightarrow>
         self_supply slf = sply @ [sum_list dmnd - sum_list sply] \<and> self_demand slf = dmnd
         \<and> cost_matrix slf = c @ [replicate (length dmnd) 0]
         \<and> self_m slf = length sply + 1 \<and> self_n slf = length dmnd)
    \<and> (sum_list sply = sum_list dmnd \<longrightarrow>
         self_supply slf = sply \<and> self_demand slf = dmnd \<and> cost_matrix slf = c
         \<and> self_m slf = length sply \<and> self_n slf = length dmnd)"
  unfolding slf_def TransportationSolver_def balance_problem_def
  by (simp add: Let_def)

theorem balance_problem_balanced_witness:
  "(let slf = TransportationSolver
                [[12, 15, 18, 35], [35, 48, 52, 28], [8, 12, 20, 32]]
                [2500, 1800, 1200] [1500, 1200, 1000, 800]
    in sum_list [2500, 1800, 1200] > (sum_list [1500, 1200, 1000, 800] :: int)
       \<and> dummy_type slf = Some ''demand''
       \<and> self_demand slf = [1500, 1200, 1000, 800, 1000]
       \<and> cost_matrix slf = [[12, 15, 18, 35, 0], [35, 48, 52, 28, 0], [8, 12, 20, 32, 0]]
       \<and> self_n slf = 5
       \<and> sum_list (self_supply slf) = sum_list (self_demand slf))"
  using balance_problem_balanced
          [of "[[12, 15, 18, 35], [35, 48, 52, 28], [8, 12, 20, 32]]"
              "[2500, 1800, 1200]" "[1500, 1200, 1000, 800]"]
  by (simp add: Let_def)

lemma wf_from_valid:
  assumes "valid_input c sply dmnd" "slf = TransportationSolver c sply dmnd"
  shows "wf_solver slf"
  using valid_input_wf[OF assms(1)] assms(2) by simp

lemma lcm_conserved:
  assumes wf: "wf_solver slf"
  shows "\<exists>w. solve_least_cost slf = Some w \<and> conserved slf (alloc w)"
proof -
  from lcm_run[OF wf] obtain w where r: "solve_least_cost slf = Some w"
    and g: "greedy_inv slf w" and z: "\<forall>i<self_m slf. s_left w ! i = 0" by blast
  have core: "inv_core slf w" using g by (simp add: greedy_inv_def)
  from conserved_if_exhausted[OF wf core] z r show ?thesis by blast
qed

lemma vam_conserved:
  assumes wf: "wf_solver slf"
  shows "\<exists>w. solve_vam slf = Some w \<and> conserved slf (alloc w)"
proof -
  from vam_run[OF wf] obtain w where r: "solve_vam slf = Some w"
    and g: "greedy_inv slf w" and z: "\<forall>i<self_m slf. s_left w ! i = 0" by blast
  have core: "inv_core slf w" using g by (simp add: greedy_inv_def)
  from conserved_if_exhausted[OF wf core] z r show ?thesis by blast
qed

section \<open>Conservation\<close>

text \<open>
  C1. For every balanced problem (balanced by the constructor where needed) with
  non-negative supplies and demands and matching dimensions, each of \<open>solve_nwc\<close>,
  \<open>solve_least_cost\<close> and \<open>solve_vam\<close> returns, and in its final allocation matrix every
  row \<open>i\<close> sums to the balanced \<open>supply[i]\<close>, every column \<open>j\<close> sums to the balanced
  \<open>demand[j]\<close>, and the sum over all cells is the common balanced total (\<open>conserved\<close>).
  Non-negative costs are not needed.
\<close>

theorem solves_conserve:
  assumes "valid_input c sply dmnd" and "slf = TransportationSolver c sply dmnd"
  shows "(\<exists>w. solve_nwc slf = Some w \<and> conserved slf (alloc w)) \<and>
         (\<exists>w. solve_least_cost slf = Some w \<and> conserved slf (alloc w)) \<and>
         (\<exists>w. solve_vam slf = Some w \<and> conserved slf (alloc w))"
  using nwc_conserved lcm_conserved vam_conserved wf_from_valid[OF assms] by blast

theorem solves_conserve_witness:
  "valid_input [[12, 15, 18, 35], [35, 48, 52, 28], [8, 12, 20, 32]]
     [2500, 1800, 1200] [1500, 1200, 1000, 800] \<and>
   (\<exists>w. solve_vam (TransportationSolver [[12, 15, 18, 35], [35, 48, 52, 28], [8, 12, 20, 32]]
            [2500, 1800, 1200] [1500, 1200, 1000, 800]) = Some w \<and>
        conserved (TransportationSolver [[12, 15, 18, 35], [35, 48, 52, 28], [8, 12, 20, 32]]
            [2500, 1800, 1200] [1500, 1200, 1000, 800]) (alloc w))"
proof -
  have h: "valid_input [[12, 15, 18, 35], [35, 48, 52, 28], [8, 12, 20, 32]]
     [2500, 1800, 1200] [1500, 1200, 1000, 800]"
    by (simp add: valid_input_def)
  from solves_conserve[OF h refl] h show ?thesis by blast
qed

lemma nwc_facts:
  assumes wf: "wf_solver slf"
  shows "\<exists>i j w. nwc_loop slf 0 0 (start_work slf) = Some (i, j, w) \<and> solve_nwc slf = Some w \<and>
           trace_inv slf w \<and> nwc_moves slf (steps w) (i, j) \<and>
           (i = self_m slf \<or> j = self_n slf) \<and> i \<le> self_m slf \<and> j \<le> self_n slf \<and>
           length (steps w) + 1 \<le> self_m slf + self_n slf"
proof -
  from nwc_run[OF wf] obtain i j w where r: "nwc_loop slf 0 0 (start_work slf) = Some (i, j, w)"
    and inv: "nwc_inv slf i j w" and t: "trace_inv slf w" and c: "cursor_inv slf i j w"
    and fin: "i = self_m slf \<or> j = self_n slf" by blast
  have b: "i \<le> self_m slf" "j \<le> self_n slf" using inv by (simp_all add: nwc_inv_def)
  have "length (steps w) = i + j" "i < self_m slf \<or> j < self_n slf"
    using c by (simp_all add: cursor_inv_def)
  then have l: "length (steps w) + 1 \<le> self_m slf + self_n slf" using b by linarith
  have s: "solve_nwc slf = Some w" using r by (simp add: solve_nwc_def)
  show ?thesis using r s t nwc_moves_from_inv[OF t c] fin b l by blast
qed

lemma lcm_facts:
  assumes wf: "wf_solver slf"
  shows "\<exists>w. solve_least_cost slf = Some w \<and> trace_inv slf w \<and> (\<forall>r\<in>set (steps w). 0 < qty r) \<and>
           length (steps w) + 1 \<le> self_m slf + self_n slf"
proof -
  from lcm_run[OF wf] obtain w where r: "solve_least_cost slf = Some w" and b: "basic_log slf w"
    by blast
  have m: "1 \<le> self_m slf" using wf by (simp add: wf_solver_def)
  have "trace_inv slf w" "trace_all slf (\<lambda>b r. 0 < qty r) (steps w)"
    using b by (simp_all add: basic_log_def)
  then show ?thesis using r trace_all_set[of slf "\<lambda>r. 0 < qty r" "steps w"] basic_log_length[OF b m]
    by blast
qed

lemma vam_facts:
  assumes wf: "wf_solver slf"
  shows "\<exists>w. solve_vam slf = Some w \<and> trace_inv slf w \<and> (\<forall>r\<in>set (steps w). 0 < qty r) \<and>
           length (steps w) + 1 \<le> self_m slf + self_n slf"
proof -
  from vam_run[OF wf] obtain w where r: "solve_vam slf = Some w" and b: "basic_log slf w"
    by blast
  have m: "1 \<le> self_m slf" using wf by (simp add: wf_solver_def)
  have "trace_inv slf w" "trace_all slf (\<lambda>b r. 0 < qty r) (steps w)"
    using b by (simp_all add: basic_log_def)
  then show ?thesis using r trace_all_set[of slf "\<lambda>r. 0 < qty r" "steps w"] basic_log_length[OF b m]
    by blast
qed

lemma effective_le:
  assumes "length stps + 1 \<le> m + n"
  shows "int (length (filter (\<lambda>r. 0 < qty r) stps)) \<le> int m + int n - 1"
proof -
  have "length (filter (\<lambda>r. 0 < qty r) stps) \<le> length stps" by (rule length_filter_le)
  then show ?thesis using assms by linarith
qed

section \<open>Termination and the number of allocations\<close>

text \<open>
  C7. On every balanced problem with non-negative supplies and demands, each of the three
  solve loops terminates (the solve method returns \<open>Some\<close> final state), and the number of
  effective allocations, the steps with a positive quantity, is at most \<open>m + n - 1\<close> for the
  balanced numbers of rows \<open>m\<close> and columns \<open>n\<close>.
\<close>

theorem solves_terminate_bounded:
  assumes "valid_input c sply dmnd" and "slf = TransportationSolver c sply dmnd"
  shows "(\<exists>w. solve_nwc slf = Some w \<and>
            int (length (filter (\<lambda>r. 0 < qty r) (steps w))) \<le> int (self_m slf) + int (self_n slf) - 1) \<and>
         (\<exists>w. solve_least_cost slf = Some w \<and>
            int (length (filter (\<lambda>r. 0 < qty r) (steps w))) \<le> int (self_m slf) + int (self_n slf) - 1) \<and>
         (\<exists>w. solve_vam slf = Some w \<and>
            int (length (filter (\<lambda>r. 0 < qty r) (steps w))) \<le> int (self_m slf) + int (self_n slf) - 1)"
proof -
  have wf: "wf_solver slf" by (rule wf_from_valid[OF assms])
  from nwc_facts[OF wf] have 1: "\<exists>w. solve_nwc slf = Some w \<and>
            int (length (filter (\<lambda>r. 0 < qty r) (steps w))) \<le> int (self_m slf) + int (self_n slf) - 1"
    using effective_le by blast
  from lcm_facts[OF wf] have 2: "\<exists>w. solve_least_cost slf = Some w \<and>
            int (length (filter (\<lambda>r. 0 < qty r) (steps w))) \<le> int (self_m slf) + int (self_n slf) - 1"
    using effective_le by blast
  from vam_facts[OF wf] have 3: "\<exists>w. solve_vam slf = Some w \<and>
            int (length (filter (\<lambda>r. 0 < qty r) (steps w))) \<le> int (self_m slf) + int (self_n slf) - 1"
    using effective_le by blast
  show ?thesis using 1 2 3 by blast
qed

theorem solves_terminate_bounded_witness:
  "valid_input [[12, 15, 18, 35], [35, 48, 52, 28], [8, 12, 20, 32]]
     [2500, 1800, 1200] [1500, 1200, 1000, 800] \<and>
   (\<exists>w. solve_nwc (TransportationSolver [[12, 15, 18, 35], [35, 48, 52, 28], [8, 12, 20, 32]]
            [2500, 1800, 1200] [1500, 1200, 1000, 800]) = Some w \<and>
        int (length (filter (\<lambda>r. 0 < qty r) (steps w))) \<le> 3 + 5 - 1)"
proof -
  have h: "valid_input [[12, 15, 18, 35], [35, 48, 52, 28], [8, 12, 20, 32]]
     [2500, 1800, 1200] [1500, 1200, 1000, 800]"
    by (simp add: valid_input_def)
  have m: "self_m (TransportationSolver [[12, 15, 18, 35], [35, 48, 52, 28], [8, 12, 20, 32]]
            [2500, 1800, 1200] [1500, 1200, 1000, 800]) = 3"
    and n: "self_n (TransportationSolver [[12, 15, 18, 35], [35, 48, 52, 28], [8, 12, 20, 32]]
            [2500, 1800, 1200] [1500, 1200, 1000, 800]) = 5"
    by (simp_all add: TransportationSolver_def balance_problem_def)
  from solves_terminate_bounded[OF h refl] h show ?thesis unfolding m n by simp
qed

section \<open>Non-negativity and monotonicity\<close>

text \<open>
  C8. Throughout every solve on non-negative balanced input, every allocated quantity is
  at least 0, every entry of the remaining-supply and remaining-demand vectors is at least 0
  after every step, and both vectors are component-wise non-increasing from the state
  before a step (the previous printed state, or the balanced supply and demand) to the
  state after it (\<open>nonneg_nonincreasing\<close>). The last recorded state is the final state.
\<close>

theorem solves_nonneg_nonincreasing:
  assumes "valid_input c sply dmnd" and "slf = TransportationSolver c sply dmnd"
  shows "(\<exists>w. solve_nwc slf = Some w \<and> nonneg_nonincreasing slf (steps w) \<and>
            last (snapshots slf (steps w)) = (alloc w, s_left w, d_left w)) \<and>
         (\<exists>w. solve_least_cost slf = Some w \<and> nonneg_nonincreasing slf (steps w) \<and>
            last (snapshots slf (steps w)) = (alloc w, s_left w, d_left w)) \<and>
         (\<exists>w. solve_vam slf = Some w \<and> nonneg_nonincreasing slf (steps w) \<and>
            last (snapshots slf (steps w)) = (alloc w, s_left w, d_left w))"
proof -
  have wf: "wf_solver slf" by (rule wf_from_valid[OF assms])
  have k: "trace_inv slf w \<Longrightarrow> nonneg_nonincreasing slf (steps w) \<and>
            last (snapshots slf (steps w)) = (alloc w, s_left w, d_left w)" for w
    using trace_inv_nonneg_nonincreasing[of slf w] by (simp add: trace_inv_def)
  show ?thesis using nwc_facts[OF wf] lcm_facts[OF wf] vam_facts[OF wf] k by blast
qed

theorem solves_nonneg_nonincreasing_witness:
  "valid_input [[12, 15, 18, 35], [35, 48, 52, 28], [8, 12, 20, 32]]
     [2500, 1800, 1200] [1500, 1200, 1000, 800] \<and>
   (\<exists>w. solve_least_cost (TransportationSolver [[12, 15, 18, 35], [35, 48, 52, 28], [8, 12, 20, 32]]
            [2500, 1800, 1200] [1500, 1200, 1000, 800]) = Some w \<and>
        nonneg_nonincreasing (TransportationSolver [[12, 15, 18, 35], [35, 48, 52, 28], [8, 12, 20, 32]]
            [2500, 1800, 1200] [1500, 1200, 1000, 800]) (steps w))"
proof -
  have h: "valid_input [[12, 15, 18, 35], [35, 48, 52, 28], [8, 12, 20, 32]]
     [2500, 1800, 1200] [1500, 1200, 1000, 800]"
    by (simp add: valid_input_def)
  from solves_nonneg_nonincreasing[OF h refl] h show ?thesis by blast
qed

section \<open>Cells of the allocation matrix\<close>




section \<open>Positive and zero quantities\<close>



section \<open>The North-West Corner traversal\<close>



section \<open>The order of Least Cost allocations\<close>



lemma set_filter_upt: "j \<in> set (filter P [0..<n]) \<longleftrightarrow> j < n \<and> P j"
  by auto






section \<open>One iteration of Vogel's approximation\<close>



section \<open>The reported total cost\<close>

text \<open>
  C6. For every finished allocation the cost evaluator is to return the sum of
  \<open>cost[i][j] * alloc[i][j]\<close> over all cells except the dummy column when the dummy kind is
  "demand", the cost of the real flows only. The source multiplies by
  \<open>c = int(self.cost_matrix[i][j])\<close>, the unit cost truncated to a whole number for
  printing, although costs are declared as floats and the cell searches compare the
  untruncated cost. With the single unit cost 1.5, supply \<open>[2]\<close> and demand \<open>[2]\<close>, every
  method allocates 2 units, whose cost is 3, and the evaluator returns 2.
\<close>

theorem cost_equation_truncates:
  "map_option alloc (solve_nwc (TransportationSolver [[3 / 2]] [2] [2])) = Some [[2]] \<and>
   map_option alloc (solve_least_cost (TransportationSolver [[3 / 2]] [2] [2])) = Some [[2]] \<and>
   map_option alloc (solve_vam (TransportationSolver [[3 / 2]] [2] [2])) = Some [[2]] \<and>
   dummy_type (TransportationSolver [[3 / 2]] [2] [2]) = None \<and>
   print_cost_equation (TransportationSolver [[3 / 2]] [2] [2]) [[2]] = 2 \<and>
   cost_matrix (TransportationSolver [[3 / 2]] [2] [2]) ! 0 ! 0 * of_int ([[2]] ! 0 ! 0) = 3"
  by code_simp

text \<open>
  What the evaluator does compute. For every valid input and every allocation matrix
  without negative entries (every finished allocation is one), it returns the sum of
  \<open>int(cost[i][j]) * alloc[i][j]\<close>, each unit cost truncated toward zero, over all cells
  except the dummy column when the dummy kind is "demand". For both dummy kinds this is the
  sum over the real sources and real destinations of the original problem only: no flow
  into the dummy column or out of the dummy row contributes. When every unit cost is a
  whole number it is the sum of \<open>cost[i][j] * alloc[i][j]\<close> over the real cells.
\<close>

theorem cost_equation_total:
  assumes "valid_input c sply dmnd" and "slf = TransportationSolver c sply dmnd"
    and "\<forall>i<self_m slf. \<forall>j<self_n slf. 0 \<le> al ! i ! j"
  shows "print_cost_equation slf al =
           (\<Sum>i\<leftarrow>[0..<self_m slf]. \<Sum>j\<leftarrow>[0..<self_n slf].
              if dummy_type slf = Some ''demand'' \<and> int j = int (self_n slf) - 1 then 0
              else py_int (cost_matrix slf ! i ! j) * al ! i ! j) \<and>
         print_cost_equation slf al =
           (\<Sum>i\<leftarrow>[0..<length sply]. \<Sum>j\<leftarrow>[0..<length dmnd]. py_int (c ! i ! j) * al ! i ! j) \<and>
         ((\<forall>i<length sply. \<forall>j<length dmnd. c ! i ! j \<in> \<int>) \<longrightarrow>
            of_int (print_cost_equation slf al) =
              (\<Sum>i\<leftarrow>[0..<length sply]. \<Sum>j\<leftarrow>[0..<length dmnd]. c ! i ! j * of_int (al ! i ! j)))"
proof (intro conjI impI)
  have "(\<Sum>j\<leftarrow>[0..<self_n slf]. cost_term slf al i j) =
        (\<Sum>j\<leftarrow>[0..<self_n slf].
              if dummy_type slf = Some ''demand'' \<and> int j = int (self_n slf) - 1 then 0
              else py_int (cost_matrix slf ! i ! j) * al ! i ! j)"
    if "i \<in> set [0..<self_m slf]" for i
  proof (rule sum_list_map_cong)
    fix j assume "j \<in> set [0..<self_n slf]"
    then have "0 \<le> al ! i ! j" using that assms(3) by simp
    then show "cost_term slf al i j =
        (if dummy_type slf = Some ''demand'' \<and> int j = int (self_n slf) - 1 then 0
         else py_int (cost_matrix slf ! i ! j) * al ! i ! j)"
      by (rule cost_term_nonneg)
  qed
  then have "(\<Sum>i\<leftarrow>[0..<self_m slf]. \<Sum>j\<leftarrow>[0..<self_n slf]. cost_term slf al i j) =
        (\<Sum>i\<leftarrow>[0..<self_m slf]. \<Sum>j\<leftarrow>[0..<self_n slf].
              if dummy_type slf = Some ''demand'' \<and> int j = int (self_n slf) - 1 then 0
              else py_int (cost_matrix slf ! i ! j) * al ! i ! j)"
    by (rule sum_list_map_cong)
  then show "print_cost_equation slf al =
           (\<Sum>i\<leftarrow>[0..<self_m slf]. \<Sum>j\<leftarrow>[0..<self_n slf].
              if dummy_type slf = Some ''demand'' \<and> int j = int (self_n slf) - 1 then 0
              else py_int (cost_matrix slf ! i ! j) * al ! i ! j)"
    by (simp only: print_cost_equation_sum)
next
  show r: "print_cost_equation slf al =
           (\<Sum>i\<leftarrow>[0..<length sply]. \<Sum>j\<leftarrow>[0..<length dmnd]. py_int (c ! i ! j) * al ! i ! j)"
    using real_flows_only[OF assms(1)] assms(2,3) by simp
  assume "\<forall>i<length sply. \<forall>j<length dmnd. c ! i ! j \<in> \<int>"
  from integral_costs_total[OF this, of al]
  show "of_int (print_cost_equation slf al) =
              (\<Sum>i\<leftarrow>[0..<length sply]. \<Sum>j\<leftarrow>[0..<length dmnd]. c ! i ! j * of_int (al ! i ! j))"
    unfolding r .
qed

theorem cost_equation_total_witness:
  "valid_input [[12, 15, 18, 35], [35, 48, 52, 28], [8, 12, 20, 32]]
     [2500, 1800, 1200] [1500, 1200, 1000, 800] \<and>
   (\<forall>i<self_m example_solver. \<forall>j<self_n example_solver.
      0 \<le> [[300, 1200, 1000, 0, 0], [0, 0, 0, 800, 1000], [1200, 0, 0, 0, 0 :: int]] ! i ! j) \<and>
   (\<forall>i<length [2500, 1800, 1200 :: int]. \<forall>j<length [1500, 1200, 1000, 800 :: int].
      [[12, 15, 18, 35], [35, 48, 52, 28], [8, 12, 20, 32]] ! i ! j \<in> (\<int> :: rat set)) \<and>
   map_option alloc (solve_vam example_solver) =
     Some [[300, 1200, 1000, 0, 0], [0, 0, 0, 800, 1000], [1200, 0, 0, 0, 0]] \<and>
   (of_int (print_cost_equation example_solver
      [[300, 1200, 1000, 0, 0], [0, 0, 0, 800, 1000], [1200, 0, 0, 0, 0]]) :: rat) =
     (\<Sum>i\<leftarrow>[0..<length [2500, 1800, 1200 :: int]]. \<Sum>j\<leftarrow>[0..<length [1500, 1200, 1000, 800 :: int]].
        [[12, 15, 18, 35], [35, 48, 52, 28], [8, 12, 20, 32]] ! i ! j *
        of_int ([[300, 1200, 1000, 0, 0], [0, 0, 0, 800, 1000], [1200, 0, 0, 0, 0]] ! i ! j))"
proof -
  have h: "valid_input [[12, 15, 18, 35], [35, 48, 52, 28], [8, 12, 20, 32]]
     [2500, 1800, 1200] [1500, 1200, 1000, 800]"
    by (simp add: valid_input_def)
  have m: "self_m example_solver = 3" and n: "self_n example_solver = 5"
    by (simp_all add: example_solver_def TransportationSolver_def balance_problem_def)
  have nn: "\<forall>i<self_m example_solver. \<forall>j<self_n example_solver.
      0 \<le> [[300, 1200, 1000, 0, 0], [0, 0, 0, 800, 1000], [1200, 0, 0, 0, 0 :: int]] ! i ! j"
    unfolding m n by (simp add: less_Suc_eq numeral_3_eq_3 numeral_eq_Suc nth_Cons')
  have ints: "\<forall>i<length [2500, 1800, 1200 :: int]. \<forall>j<length [1500, 1200, 1000, 800 :: int].
      [[12, 15, 18, 35], [35, 48, 52, 28], [8, 12, 20, 32]] ! i ! j \<in> (\<int> :: rat set)"
    by (simp add: less_Suc_eq nth_Cons')
  have a: "map_option alloc (solve_vam example_solver) =
     Some [[300, 1200, 1000, 0, 0], [0, 0, 0, 800, 1000], [1200, 0, 0, 0, 0]]"
    by code_simp
  note t = cost_equation_total[OF h example_solver_def nn, THEN conjunct2, THEN conjunct2,
      THEN mp, OF ints]
  show ?thesis by (rule conjI[OF h conjI[OF nn conjI[OF ints conjI[OF a t]]]])
qed

end
